theory Spec2Isabelle
  imports Main "HOL-Library.Sublist"
begin

section \<open>Python values\<close>

text \<open>
  A Python \<open>str\<close> is a sequence of Unicode code points and \<open>len\<close> counts code points,
  so a string is a list of code points here. A \<open>bytes\<close> object is a list of byte values
  (numbers below 256). String literals of the source are written through \<open>ascii\<close>.
\<close>

type_synonym pystr = "nat list"
type_synonym pybytes = "nat list"

definition ascii :: "string \<Rightarrow> pystr" where
  "ascii s = map of_char s"

text \<open>
  The message is what \<open>json.loads\<close> returns: \<open>None\<close>, a bool, a number, a str, a list
  or a dict with str keys. A dict is an association list read with \<open>map_of\<close>. Only the
  truth value of a number is ever read by the program, so numbers are integers.
\<close>

datatype json =
    JNull
  | JBool bool
  | JNum int
  | JStr pystr
  | JArr "json list"
  | JObj "(pystr \<times> json) list"

text \<open>The exceptions the code can raise (\<open>binascii.Error\<close> is a subclass of \<open>ValueError\<close>).\<close>

datatype error = AttributeError | TypeError | KeyError | ValueError | BinasciiError

text \<open>Truth value of an object, as tested by \<open>if x:\<close>.\<close>

fun truthy :: "json \<Rightarrow> bool" where
  "truthy JNull = False"
| "truthy (JBool b) = b"
| "truthy (JNum n) = (n \<noteq> 0)"
| "truthy (JStr s) = (s \<noteq> [])"
| "truthy (JArr xs) = (xs \<noteq> [])"
| "truthy (JObj kvs) = (kvs \<noteq> [])"

text \<open>\<open>x.get(k, d)\<close>: only a dict has the method.\<close>

fun dict_get :: "json \<Rightarrow> pystr \<Rightarrow> json \<Rightarrow> error + json" where
  "dict_get (JObj kvs) k d = Inr (case map_of kvs k of None \<Rightarrow> d | Some v \<Rightarrow> v)"
| "dict_get _ k d = Inl AttributeError"

text \<open>\<open>x[k]\<close> with a str key \<open>k\<close>.\<close>

fun subscript :: "json \<Rightarrow> pystr \<Rightarrow> error + json" where
  "subscript (JObj kvs) k = (case map_of kvs k of None \<Rightarrow> Inl KeyError | Some v \<Rightarrow> Inr v)"
| "subscript _ k = Inl TypeError"

text \<open>
  \<open>for x in v\<close>: the items the loop sees. A list gives its elements, a dict its keys,
  a str its characters; the other values are not iterable.
\<close>

fun py_iter :: "json \<Rightarrow> error + json list" where
  "py_iter (JArr xs) = Inr xs"
| "py_iter (JObj kvs) = Inr (map JStr (remdups (map fst kvs)))"
| "py_iter (JStr s) = Inr (map (\<lambda>c. JStr [c]) s)"
| "py_iter _ = Inl TypeError"

text \<open>
  \<open>x.lower()\<close>: only a str has the method. The letters A to Z are mapped to a to z and
  every other code point is kept. Unicode lower-casing also changes code points above 127, but
  it maps none of them to a letter of \<open>subject\<close> or \<open>from\<close>, the only strings the result is
  compared with.
\<close>

definition lower_cp :: "nat \<Rightarrow> nat" where
  "lower_cp c = (if 65 \<le> c \<and> c \<le> 90 then c + 32 else c)"

fun str_lower :: "json \<Rightarrow> error + pystr" where
  "str_lower (JStr s) = Inr (map lower_cp s)"
| "str_lower _ = Inl AttributeError"

section \<open>The library calls of \<open>decode_base64url\<close>\<close>

text \<open>
  \<open>base64.urlsafe_b64decode(s)\<close> on a str: the str is encoded to ASCII bytes (a code point
  above 127 raises \<open>ValueError\<close>), \<open>-\<close> and \<open>_\<close> are translated to \<open>+\<close> and \<open>/\<close>, and
  \<open>binascii.a2b_base64\<close> decodes the bytes in its default, non-strict mode.
\<close>

definition encode_ascii :: "pystr \<Rightarrow> error + pybytes" where
  "encode_ascii s = (if \<forall>c \<in> set s. c < 128 then Inr s else Inl ValueError)"

definition urlsafe_translation :: "nat \<Rightarrow> nat" where
  "urlsafe_translation c = (if c = 45 then 43 else if c = 95 then 47 else c)"

text \<open>
  The decoding table of \<open>binascii\<close>: the value of a character of the standard alphabet
  (\<open>A-Z\<close>, \<open>a-z\<close>, \<open>0-9\<close>, \<open>+\<close>, \<open>/\<close>), and 64 for every other byte.
\<close>

definition table_a2b_base64 :: "nat \<Rightarrow> nat" where
  "table_a2b_base64 c =
     (if 65 \<le> c \<and> c \<le> 90 then c - 65
      else if 97 \<le> c \<and> c \<le> 122 then c - 71
      else if 48 \<le> c \<and> c \<le> 57 then c + 4
      else if c = 43 then 62
      else if c = 47 then 63
      else 64)"

text \<open>
  The loop of \<open>a2b_base64\<close> over the input bytes. Its state is \<open>quad_pos\<close> (position in
  the current group of four characters), \<open>leftchar\<close> (the bits of the group not yet
  written), \<open>pads\<close> (the \<open>=\<close> seen since the last data character, counted only when
  \<open>quad_pos \<ge> 2\<close>) and the bytes written so far. A pad that completes a group stops the
  decoding; a byte outside the alphabet is skipped; input that ends inside a group raises
  \<open>binascii.Error\<close>. The C code writes \<open>(leftchar << 2) | (this_ch >> 4)\<close> and the like into
  an \<open>unsigned char\<close>: the two operands never have a bit in common, so the bitwise or is a
  sum, taken modulo 256.
\<close>

fun a2b_loop :: "pybytes \<Rightarrow> nat \<Rightarrow> nat \<Rightarrow> nat \<Rightarrow> pybytes \<Rightarrow> error + pybytes" where
  "a2b_loop [] quad_pos leftchar pads out =
     (if quad_pos \<noteq> 0 then Inl BinasciiError else Inr out)"
| "a2b_loop (c # cs) quad_pos leftchar pads out =
     (if c = 61 then
        (if quad_pos \<ge> 2 \<and> quad_pos + (pads + 1) \<ge> 4 then Inr out
         else a2b_loop cs quad_pos leftchar (if quad_pos \<ge> 2 then pads + 1 else pads) out)
      else
        (let this_ch = table_a2b_base64 c in
         if this_ch \<ge> 64 then a2b_loop cs quad_pos leftchar pads out
         else if quad_pos = 0 then a2b_loop cs 1 this_ch 0 out
         else if quad_pos = 1 then
           a2b_loop cs 2 (this_ch mod 16) 0 (out @ [(leftchar * 4 + this_ch div 16) mod 256])
         else if quad_pos = 2 then
           a2b_loop cs 3 (this_ch mod 4) 0 (out @ [(leftchar * 16 + this_ch div 4) mod 256])
         else
           a2b_loop cs 0 0 0 (out @ [(leftchar * 64 + this_ch) mod 256])))"

definition a2b_base64 :: "pybytes \<Rightarrow> error + pybytes" where
  "a2b_base64 bs = a2b_loop bs 0 0 0 []"

definition urlsafe_b64decode :: "pystr \<Rightarrow> error + pybytes" where
  "urlsafe_b64decode s =
     (case encode_ascii s of
        Inl e \<Rightarrow> Inl e
      | Inr bs \<Rightarrow> a2b_base64 (map urlsafe_translation bs))"

text \<open>
  \<open>bytes.decode("utf-8", errors="ignore")\<close>. The decoder reads one sequence at a time.
  Where the bytes are not a UTF-8 sequence it skips the bytes of the error and goes on:
  one byte for an invalid start byte, the bytes read so far for an invalid continuation
  byte, and everything up to the end when the data ends inside a sequence.
\<close>

definition is_continuation_byte :: "nat \<Rightarrow> bool" where
  "is_continuation_byte ch = (128 \<le> ch \<and> ch < 192)"

fun utf8_decode_ignore :: "pybytes \<Rightarrow> pystr" where
  "utf8_decode_ignore [] = []"
| "utf8_decode_ignore (ch # s1) =
     (if ch < 128 then ch # utf8_decode_ignore s1
      else if ch < 194 then utf8_decode_ignore s1
      else if ch < 224 then
        (case s1 of
           [] \<Rightarrow> []
         | ch2 # s2 \<Rightarrow>
             if \<not> is_continuation_byte ch2 then utf8_decode_ignore s1
             else (ch * 64 + ch2 - 12416) # utf8_decode_ignore s2)
      else if ch < 240 then
        (case s1 of
           [] \<Rightarrow> []
         | ch2 # s2 \<Rightarrow>
             if \<not> is_continuation_byte ch2 \<or> (if ch2 < 160 then ch = 224 else ch = 237)
             then utf8_decode_ignore s1
             else (case s2 of
                     [] \<Rightarrow> []
                   | ch3 # s3 \<Rightarrow>
                       if \<not> is_continuation_byte ch3 then utf8_decode_ignore s2
                       else (ch * 4096 + ch2 * 64 + ch3 - 925824) # utf8_decode_ignore s3))
      else if ch < 245 then
        (case s1 of
           [] \<Rightarrow> []
         | ch2 # s2 \<Rightarrow>
             if \<not> is_continuation_byte ch2 \<or> (if ch2 < 144 then ch = 240 else ch = 244)
             then utf8_decode_ignore s1
             else (case s2 of
                     [] \<Rightarrow> []
                   | ch3 # s3 \<Rightarrow>
                       if \<not> is_continuation_byte ch3 then utf8_decode_ignore s2
                       else (case s3 of
                               [] \<Rightarrow> []
                             | ch4 # s4 \<Rightarrow>
                                 if \<not> is_continuation_byte ch4 then utf8_decode_ignore s3
                                 else (ch * 262144 + ch2 * 4096 + ch3 * 64 + ch4 - 63447168)
                                        # utf8_decode_ignore s4)))
      else utf8_decode_ignore s1)"

section \<open>\<open>decode_base64url\<close>\<close>

text \<open>The padding step of the source: \<open>data += "=" * (4 - missing_padding)\<close>.\<close>

definition add_padding :: "pystr \<Rightarrow> pystr" where
  "add_padding data =
     (let missing_padding = length data mod 4
      in if missing_padding \<noteq> 0 then data @ replicate (4 - missing_padding) 61 else data)"

definition decode_base64url :: "pystr \<Rightarrow> error + pystr" where
  "decode_base64url data =
     (if data = [] then Inr []
      else case urlsafe_b64decode (add_padding data) of
             Inl e \<Rightarrow> Inl e
           | Inr raw \<Rightarrow> Inr (utf8_decode_ignore raw))"

section \<open>\<open>extract_email_fields\<close>\<close>

text \<open>
  A call \<open>decode_base64url(data)\<close> with the object read from the message. The function
  takes a str; any other object that passed the truth test before the call has no usable
  \<open>len\<close> or cannot be decoded, and the call raises \<open>TypeError\<close>.
\<close>

fun call_decode :: "json \<Rightarrow> error + pystr" where
  "call_decode (JStr s) = decode_base64url s"
| "call_decode v = (if truthy v then Inl TypeError else Inr [])"

text \<open>
  The header loop, with the variables \<open>subject\<close> and \<open>sender\<close> as its state. A header
  value is returned as it is in the message, whatever its type.
\<close>

fun header_loop :: "json list \<Rightarrow> json \<Rightarrow> json \<Rightarrow> error + (json \<times> json)" where
  "header_loop [] subject sender = Inr (subject, sender)"
| "header_loop (h # hs) subject sender =
     (case dict_get h (ascii ''name'') (JStr []) of
        Inl e \<Rightarrow> Inl e
      | Inr n \<Rightarrow>
          (case str_lower n of
             Inl e \<Rightarrow> Inl e
           | Inr name \<Rightarrow>
               if name = ascii ''subject'' then
                 (case dict_get h (ascii ''value'') (JStr []) of
                    Inl e \<Rightarrow> Inl e
                  | Inr v \<Rightarrow> header_loop hs v sender)
               else if name = ascii ''from'' then
                 (case dict_get h (ascii ''value'') (JStr []) of
                    Inl e \<Rightarrow> Inl e
                  | Inr v \<Rightarrow> header_loop hs subject v)
               else header_loop hs subject sender))"

text \<open>The test \<open>mime in ("text/plain", "text/html")\<close>.\<close>

definition is_text_mime :: "json \<Rightarrow> bool" where
  "is_text_mime mime = (mime = JStr (ascii ''text/plain'') \<or> mime = JStr (ascii ''text/html''))"

text \<open>
  The expression \<open>x.get("body", {}).get("data")\<close>, which the source evaluates on the
  payload and on every part.
\<close>

definition body_data :: "json \<Rightarrow> error + json" where
  "body_data x =
     (case dict_get x (ascii ''body'') (JObj []) of
        Inl e \<Rightarrow> Inl e
      | Inr b \<Rightarrow> dict_get b (ascii ''data'') JNull)"

text \<open>The nesting depth of a value, the measure of the termination proofs.\<close>

fun max_list :: "nat list \<Rightarrow> nat" where
  "max_list [] = 0"
| "max_list (x # xs) = max x (max_list xs)"

fun height :: "json \<Rightarrow> nat" where
  "height (JArr xs) = Suc (max_list (map height xs))"
| "height (JObj kvs) = Suc (max_list (map (\<lambda>kv. height (snd kv)) kvs))"
| "height _ = 0"

lemma max_list_ge: "x \<in> set xs \<Longrightarrow> x \<le> max_list xs"
  by (induction xs) auto

lemma max_list_const0: "max_list (map (\<lambda>x. 0) xs) = 0"
  by (induction xs) auto

lemma height_map_of:
  assumes "map_of kvs k = Some v"
  shows "height v < height (JObj kvs)"
proof -
  from assms have "(k, v) \<in> set kvs" by (rule map_of_SomeD)
  then have "height v \<in> set (map (\<lambda>kv. height (snd kv)) kvs)" by force
  then have "height v \<le> max_list (map (\<lambda>kv. height (snd kv)) kvs)" by (rule max_list_ge)
  then show ?thesis by simp
qed

lemma height_subscript: "subscript part k = Inr v \<Longrightarrow> height v < height part"
  by (cases part) (auto split: option.splits dest: height_map_of simp del: height.simps)

lemma height_py_iter:
  "py_iter parts = Inr items \<Longrightarrow> max_list (map height items) \<le> height parts"
  by (cases parts) (auto simp: comp_def max_list_const0)

text \<open>
  \<open>walk_parts(parts)\<close>: \<open>walk_parts\<close> starts the \<open>for\<close> loop over its argument and
  \<open>walk_loop\<close> is the loop over the items that remain.
\<close>

function walk_parts :: "json \<Rightarrow> error + pystr"
  and walk_loop :: "json list \<Rightarrow> error + pystr" where
  "walk_parts parts =
     (case py_iter parts of
        Inl e \<Rightarrow> Inl e
      | Inr items \<Rightarrow> walk_loop items)"
| "walk_loop [] = Inr []"
| "walk_loop (part # rest) =
     (case dict_get part (ascii ''mimeType'') (JStr []) of
        Inl e \<Rightarrow> Inl e
      | Inr mime \<Rightarrow>
          (case body_data part of
             Inl e \<Rightarrow> Inl e
           | Inr data \<Rightarrow>
               if is_text_mime mime \<and> truthy data then call_decode data
               else
                 (case dict_get part (ascii ''parts'') JNull of
                    Inl e \<Rightarrow> Inl e
                  | Inr sub \<Rightarrow>
                      if truthy sub then
                        (case subscript part (ascii ''parts'') of
                           Inl e \<Rightarrow> Inl e
                         | Inr sub' \<Rightarrow>
                             (case walk_parts sub' of
                                Inl e \<Rightarrow> Inl e
                              | Inr result \<Rightarrow>
                                  if result \<noteq> [] then Inr result
                                  else walk_loop rest))
                      else walk_loop rest)))"
  by pat_completeness auto

termination walk_parts
proof (relation "inv_image (less_than <*lex*> less_than <*lex*> less_than)
     (\<lambda>x. case x of Inl parts \<Rightarrow> (height parts, Suc 0, 0)
                   | Inr items \<Rightarrow> (max_list (map height items), 0, length items))",
    goal_cases)
  case 1
  show ?case by (intro wf_inv_image wf_lex_prod wf_less_than)
next
  case (2 parts items)
  then show ?case using height_py_iter[of parts items] by auto
next
  case (3 part rest mime data sub sub')
  then show ?case using height_subscript[of part "ascii ''parts''" sub'] by auto
next
  case 4
  then show ?case by auto
next
  case 5
  then show ?case by auto
qed

text \<open>The header pass: \<open>headers = payload.get("headers", [])\<close> and the loop over it.\<close>

definition extract_headers :: "json \<Rightarrow> error + (json \<times> json)" where
  "extract_headers payload =
     (case dict_get payload (ascii ''headers'') (JArr []) of
        Inl e \<Rightarrow> Inl e
      | Inr headers \<Rightarrow>
          (case py_iter headers of
             Inl e \<Rightarrow> Inl e
           | Inr hs \<Rightarrow> header_loop hs (JStr []) (JStr [])))"

text \<open>
  \<open>extract_email_fields(message)\<close> returns the tuple \<open>(sender, subject, body)\<close>. The sender
  and the subject are header values of the message; the body is a str.
\<close>

definition extract_email_fields :: "json \<Rightarrow> error + (json \<times> json \<times> pystr)" where
  "extract_email_fields message =
     (case dict_get message (ascii ''payload'') (JObj []) of
        Inl e \<Rightarrow> Inl e
      | Inr payload \<Rightarrow>
          (case extract_headers payload of
             Inl e \<Rightarrow> Inl e
           | Inr (subject, sender) \<Rightarrow>
               (case body_data payload of
                  Inl e \<Rightarrow> Inl e
                | Inr data \<Rightarrow>
                    if truthy data then
                      (case subscript payload (ascii ''body'') of
                         Inl e \<Rightarrow> Inl e
                       | Inr b \<Rightarrow>
                           (case subscript b (ascii ''data'') of
                              Inl e \<Rightarrow> Inl e
                            | Inr data' \<Rightarrow>
                                (case call_decode data' of
                                   Inl e \<Rightarrow> Inl e
                                 | Inr body \<Rightarrow> Inr (sender, subject, body))))
                    else
                      (case dict_get payload (ascii ''parts'') (JArr []) of
                         Inl e \<Rightarrow> Inl e
                       | Inr parts \<Rightarrow>
                           (case walk_parts parts of
                              Inl e \<Rightarrow> Inl e
                            | Inr body \<Rightarrow> Inr (sender, subject, body))))))"

section \<open>Notions of the specification\<close>

text \<open>
  UTF-8 encoding of a code point and of a text, and the code points that have one (the
  Unicode scalar values: everything up to U+10FFFF but the surrogates).
\<close>

definition utf8_encode_cp :: "nat \<Rightarrow> pybytes" where
  "utf8_encode_cp c =
     (if c < 128 then [c]
      else if c < 2048 then [192 + c div 64, 128 + c mod 64]
      else if c < 65536 then [224 + c div 4096, 128 + (c div 64) mod 64, 128 + c mod 64]
      else [240 + c div 262144, 128 + (c div 4096) mod 64, 128 + (c div 64) mod 64, 128 + c mod 64])"

definition utf8_encode :: "pystr \<Rightarrow> pybytes" where
  "utf8_encode s = concat (map utf8_encode_cp s)"

definition is_scalar_value :: "nat \<Rightarrow> bool" where
  "is_scalar_value c = (c < 55296 \<or> (57344 \<le> c \<and> c < 1114112))"


text \<open>The characters of the base64url alphabet: \<open>A-Z\<close>, \<open>a-z\<close>, \<open>0-9\<close>, \<open>-\<close> and \<open>_\<close>.\<close>

definition is_base64url_char :: "nat \<Rightarrow> bool" where
  "is_base64url_char c =
     ((65 \<le> c \<and> c \<le> 90) \<or> (97 \<le> c \<and> c \<le> 122) \<or> (48 \<le> c \<and> c \<le> 57) \<or> c = 45 \<or> c = 95)"

text \<open>
  Modelled from the spec: the provider's encoder, which is not code of this repository. The
  spec describes it as the URL-safe base64 alphabet (\<open>-\<close> and \<open>_\<close> for \<open>+\<close> and \<open>/\<close>) applied
  to the UTF-8 bytes of the text, with the padding \<open>=\<close> stripped. \<open>table_b2a_urlsafe\<close> is the
  alphabet, \<open>urlsafe_b64encode\<close> the padded encoding of the bytes, three at a time.
\<close>

definition table_b2a_urlsafe :: "nat \<Rightarrow> nat" where
  "table_b2a_urlsafe n =
     (if n < 26 then 65 + n
      else if n < 52 then 71 + n
      else if n < 62 then n - 4
      else if n = 62 then 45
      else 95)"

fun urlsafe_b64encode :: "pybytes \<Rightarrow> pystr" where
  "urlsafe_b64encode [] = []"
| "urlsafe_b64encode [a] =
     [table_b2a_urlsafe (a div 4), table_b2a_urlsafe ((a mod 4) * 16), 61, 61]"
| "urlsafe_b64encode [a, b] =
     [table_b2a_urlsafe (a div 4), table_b2a_urlsafe ((a mod 4) * 16 + b div 16),
      table_b2a_urlsafe ((b mod 16) * 4), 61]"
| "urlsafe_b64encode (a # b # c # rest) =
     [table_b2a_urlsafe (a div 4), table_b2a_urlsafe ((a mod 4) * 16 + b div 16),
      table_b2a_urlsafe ((b mod 16) * 4 + c div 64), table_b2a_urlsafe (c mod 64)]
     @ urlsafe_b64encode rest"

definition strip_padding :: "pystr \<Rightarrow> pystr" where
  "strip_padding s = rev (dropWhile (\<lambda>c. c = 61) (rev s))"

definition provider_encode :: "pystr \<Rightarrow> pystr" where
  "provider_encode text = strip_padding (urlsafe_b64encode (utf8_encode text))"

text \<open>The encoding without its padding, for the proofs.\<close>

fun urlsafe_b64encode_nopad :: "pybytes \<Rightarrow> pystr" where
  "urlsafe_b64encode_nopad [] = []"
| "urlsafe_b64encode_nopad [a] =
     [table_b2a_urlsafe (a div 4), table_b2a_urlsafe ((a mod 4) * 16)]"
| "urlsafe_b64encode_nopad [a, b] =
     [table_b2a_urlsafe (a div 4), table_b2a_urlsafe ((a mod 4) * 16 + b div 16),
      table_b2a_urlsafe ((b mod 16) * 4)]"
| "urlsafe_b64encode_nopad (a # b # c # rest) =
     [table_b2a_urlsafe (a div 4), table_b2a_urlsafe ((a mod 4) * 16 + b div 16),
      table_b2a_urlsafe ((b mod 16) * 4 + c div 64), table_b2a_urlsafe (c mod 64)]
     @ urlsafe_b64encode_nopad rest"

text \<open>
  The header pass, as the specification describes it: a header counts for a key when its
  lower-cased name is the key, and the output for a key is the value of the last header that
  counts for it, or the empty string when there is none. A header is well-formed when it is
  a dict whose name, if it has one, is a str.
\<close>

definition header_named :: "string \<Rightarrow> json \<Rightarrow> bool" where
  "header_named key h =
     (case dict_get h (ascii ''name'') (JStr []) of
        Inr (JStr n) \<Rightarrow> map lower_cp n = ascii key
      | _ \<Rightarrow> False)"

definition header_value :: "json \<Rightarrow> json" where
  "header_value h =
     (case dict_get h (ascii ''value'') (JStr []) of
        Inr v \<Rightarrow> v
      | Inl _ \<Rightarrow> JStr [])"

definition last_header :: "string \<Rightarrow> json list \<Rightarrow> json" where
  "last_header key hs =
     (case find (header_named key) (rev hs) of
        None \<Rightarrow> JStr []
      | Some h \<Rightarrow> header_value h)"

definition header_ok :: "json \<Rightarrow> bool" where
  "header_ok h =
     (case dict_get h (ascii ''name'') (JStr []) of
        Inr (JStr n) \<Rightarrow> True
      | _ \<Rightarrow> False)"

text \<open>The assignment \<open>x[k] = v\<close> on a dict, to state what a result does not depend on.\<close>

fun set_key :: "pystr \<Rightarrow> json \<Rightarrow> json \<Rightarrow> json" where
  "set_key k v (JObj kvs) = JObj ((k, v) # kvs)"
| "set_key k v x = x"

text \<open>
  The parts tree, as the walk sees it. A text part is a part that the walk decodes: its
  \<open>mimeType\<close> is \<open>text/plain\<close> or \<open>text/html\<close> and its body data passes the truth test;
  \<open>part_text\<close> is what decoding it gives. The children of a part are the items of its
  \<open>parts\<close>, when it has some. A part is well-formed when the walk can read it without a type
  error: it is a dict, its body is a dict or missing, and its \<open>parts\<close> are missing, false or
  iterable. \<open>preorder\<close> lists the parts of a tree, every part before its children and the
  children before the next sibling.
\<close>

definition is_text_part :: "json \<Rightarrow> bool" where
  "is_text_part part =
     (case dict_get part (ascii ''mimeType'') (JStr []) of
        Inl _ \<Rightarrow> False
      | Inr mime \<Rightarrow>
          (case body_data part of
             Inl _ \<Rightarrow> False
           | Inr data \<Rightarrow> is_text_mime mime \<and> truthy data))"

definition part_text :: "json \<Rightarrow> error + pystr" where
  "part_text part =
     (case body_data part of
        Inl e \<Rightarrow> Inl e
      | Inr data \<Rightarrow> call_decode data)"

definition children :: "json \<Rightarrow> json list" where
  "children part =
     (case dict_get part (ascii ''parts'') JNull of
        Inl _ \<Rightarrow> []
      | Inr sub \<Rightarrow>
          if truthy sub then (case py_iter sub of Inl _ \<Rightarrow> [] | Inr items \<Rightarrow> items)
          else [])"

definition part_ok :: "json \<Rightarrow> bool" where
  "part_ok part =
     (case body_data part of
        Inl _ \<Rightarrow> False
      | Inr _ \<Rightarrow>
          (case dict_get part (ascii ''parts'') JNull of
             Inl _ \<Rightarrow> False
           | Inr sub \<Rightarrow> \<not> truthy sub \<or> (case py_iter sub of Inl _ \<Rightarrow> False | Inr _ \<Rightarrow> True)))"

lemma height_children:
  assumes "c \<in> set (children part)"
  shows "height c < height part"
proof -
  have "\<exists>sub items. dict_get part (ascii ''parts'') JNull = Inr sub \<and> truthy sub
      \<and> py_iter sub = Inr items \<and> c \<in> set items"
  proof (cases "dict_get part (ascii ''parts'') JNull")
    case (Inl e)
    then have "children part = []" by (simp add: children_def)
    with assms show ?thesis by simp
  next
    case sub: (Inr sub)
    show ?thesis
    proof (cases "py_iter sub")
      case (Inl e)
      with sub have "children part = []" by (simp add: children_def)
      with assms show ?thesis by simp
    next
      case items: (Inr items)
      show ?thesis
      proof (cases "truthy sub")
        case True
        with sub items have "children part = items" by (simp add: children_def)
        with assms sub items True show ?thesis by simp
      next
        case False
        with sub have "children part = []" by (simp add: children_def)
        with assms show ?thesis by simp
      qed
    qed
  qed
  then obtain sub items where sub: "dict_get part (ascii ''parts'') JNull = Inr sub"
    and t: "truthy sub" and items: "py_iter sub = Inr items" and c: "c \<in> set items"
    by blast
  from sub obtain kvs where part: "part = JObj kvs"
    by (cases part) simp_all
  from sub t have "map_of kvs (ascii ''parts'') = Some sub"
    by (cases "map_of kvs (ascii ''parts'')") (auto simp: part)
  then have "height sub < height part"
    unfolding part by (rule height_map_of)
  moreover have "height c \<le> max_list (map height items)"
    using c by (intro max_list_ge) simp
  moreover have "max_list (map height items) \<le> height sub"
    using items by (rule height_py_iter)
  ultimately show ?thesis by linarith
qed

function preorder :: "json list \<Rightarrow> json list" where
  "preorder [] = []"
| "preorder (part # rest) = part # preorder (children part) @ preorder rest"
  by pat_completeness auto

termination preorder
proof (relation "inv_image (less_than <*lex*> less_than)
    (\<lambda>ps. (max_list (map height ps), length ps))", goal_cases)
  case 1
  show ?case by (intro wf_inv_image wf_lex_prod wf_less_than)
next
  case (2 part rest)
  show ?case
  proof (cases "children part")
    case Nil
    then show ?thesis by (auto simp: max_def)
  next
    case (Cons c cs)
    have "\<forall>x \<in> set (children part). height x < height part"
      using height_children by blast
    then have "max_list (map height (c # cs)) < height part"
      unfolding Cons by (induction cs arbitrary: c) auto
    then show ?thesis by (auto simp: Cons)
  qed
next
  case (3 part rest)
  then show ?case by auto
qed

text \<open>
  The characters that the decoder reads as data: those of the base64url alphabet, and \<open>+\<close>
  and \<open>/\<close>, which \<open>urlsafe_b64decode\<close> accepts as well.
\<close>

definition is_data_char :: "nat \<Rightarrow> bool" where
  "is_data_char c = (is_base64url_char c \<or> c = 43 \<or> c = 47)"

text \<open>
  Whether the padding that \<open>decode_base64url\<close> appends completes the last group of data
  characters: \<open>q\<close> is the number of data characters modulo 4 and \<open>k\<close> the number of \<open>=\<close>
  appended. A group of two data characters needs two \<open>=\<close>, a group of three needs one, and a
  group of one can never be completed.
\<close>

definition padding_fits :: "pystr \<Rightarrow> bool" where
  "padding_fits data =
     (let q = length (filter is_data_char data) mod 4;
          k = (4 - length data mod 4) mod 4
      in q = 0 \<or> (q = 2 \<and> 2 \<le> k) \<or> (q = 3 \<and> 1 \<le> k))"

text \<open>
  The order in which the walk examines the parts: pre-order, except that at every level
  the siblings after a text part are not examined, since the loop of that level returns at
  the text part. A text part gives the result when decoding it raises or gives a non-empty
  string; an empty string is returned by the loop of its level only.
\<close>

function walk_order :: "json list \<Rightarrow> json list" where
  "walk_order [] = []"
| "walk_order (part # rest) =
     (if is_text_part part then [part]
      else part # walk_order (children part) @ walk_order rest)"
  by pat_completeness auto

termination walk_order
proof (relation "inv_image (less_than <*lex*> less_than)
    (\<lambda>ps. (max_list (map height ps), length ps))", goal_cases)
  case 1
  show ?case by (intro wf_inv_image wf_lex_prod wf_less_than)
next
  case (2 part rest)
  show ?case
  proof (cases "children part")
    case Nil
    then show ?thesis by (auto simp: max_def)
  next
    case (Cons c cs)
    have "\<forall>x \<in> set (children part). height x < height part"
      using height_children by blast
    then have "max_list (map height (c # cs)) < height part"
      unfolding Cons by (induction cs arbitrary: c) auto
    then show ?thesis by (auto simp: Cons)
  qed
next
  case (3 part rest)
  then show ?case by auto
qed

definition gives_result :: "json \<Rightarrow> bool" where
  "gives_result part = (is_text_part part \<and> part_text part \<noteq> Inr [])"

text \<open>
  The walk with a bounded call stack, to measure the depth of the recursion:
  \<open>walk_parts_fuel n\<close> is \<open>walk_parts\<close> run with room for \<open>n\<close> nested calls of
  \<open>walk_parts\<close>, the outermost call included, and \<open>None\<close> when the room does not suffice.
  The loop of a call runs in the frame of the call.
\<close>

function walk_parts_fuel :: "nat \<Rightarrow> json \<Rightarrow> (error + pystr) option"
  and walk_loop_fuel :: "nat \<Rightarrow> json list \<Rightarrow> (error + pystr) option" where
  "walk_parts_fuel 0 parts = None"
| "walk_parts_fuel (Suc n) parts =
     (case py_iter parts of
        Inl e \<Rightarrow> Some (Inl e)
      | Inr items \<Rightarrow> walk_loop_fuel n items)"
| "walk_loop_fuel n [] = Some (Inr [])"
| "walk_loop_fuel n (part # rest) =
     (case dict_get part (ascii ''mimeType'') (JStr []) of
        Inl e \<Rightarrow> Some (Inl e)
      | Inr mime \<Rightarrow>
          (case body_data part of
             Inl e \<Rightarrow> Some (Inl e)
           | Inr data \<Rightarrow>
               if is_text_mime mime \<and> truthy data then Some (call_decode data)
               else
                 (case dict_get part (ascii ''parts'') JNull of
                    Inl e \<Rightarrow> Some (Inl e)
                  | Inr sub \<Rightarrow>
                      if truthy sub then
                        (case subscript part (ascii ''parts'') of
                           Inl e \<Rightarrow> Some (Inl e)
                         | Inr sub' \<Rightarrow>
                             (case walk_parts_fuel n sub' of
                                None \<Rightarrow> None
                              | Some (Inl e) \<Rightarrow> Some (Inl e)
                              | Some (Inr result) \<Rightarrow>
                                  if result \<noteq> [] then Some (Inr result)
                                  else walk_loop_fuel n rest))
                      else walk_loop_fuel n rest)))"
  by pat_completeness auto

termination walk_parts_fuel
proof (relation "inv_image (less_than <*lex*> less_than <*lex*> less_than)
     (\<lambda>x. case x of Inl (n, parts) \<Rightarrow> (n, 0, 0)
                   | Inr (n, items) \<Rightarrow> (n, Suc 0, length items))",
    goal_cases)
  case 1
  show ?case by (intro wf_inv_image wf_lex_prod wf_less_than)
qed auto

text \<open>\<open>extract_email_fields\<close> with the same bound on the stack of its walk.\<close>

definition extract_email_fields_fuel ::
    "nat \<Rightarrow> json \<Rightarrow> (error + (json \<times> json \<times> pystr)) option" where
  "extract_email_fields_fuel n message =
     (case dict_get message (ascii ''payload'') (JObj []) of
        Inl e \<Rightarrow> Some (Inl e)
      | Inr payload \<Rightarrow>
          (case extract_headers payload of
             Inl e \<Rightarrow> Some (Inl e)
           | Inr (subject, sender) \<Rightarrow>
               (case body_data payload of
                  Inl e \<Rightarrow> Some (Inl e)
                | Inr data \<Rightarrow>
                    if truthy data then
                      (case subscript payload (ascii ''body'') of
                         Inl e \<Rightarrow> Some (Inl e)
                       | Inr b \<Rightarrow>
                           (case subscript b (ascii ''data'') of
                              Inl e \<Rightarrow> Some (Inl e)
                            | Inr data' \<Rightarrow>
                                (case call_decode data' of
                                   Inl e \<Rightarrow> Some (Inl e)
                                 | Inr body \<Rightarrow> Some (Inr (sender, subject, body)))))
                    else
                      (case dict_get payload (ascii ''parts'') (JArr []) of
                         Inl e \<Rightarrow> Some (Inl e)
                       | Inr parts \<Rightarrow>
                           (case walk_parts_fuel n parts of
                              None \<Rightarrow> None
                            | Some (Inl e) \<Rightarrow> Some (Inl e)
                            | Some (Inr body) \<Rightarrow> Some (Inr (sender, subject, body)))))))"

text \<open>
  A message with its missing collections written out. \<open>fill_parts\<close> gives every part of
  a tree that has no \<open>parts\<close> an empty list of parts, at every level; \<open>fill_message\<close>
  gives a message without a payload an empty payload, and a payload without headers or
  without parts an empty list of them. \<open>get_or k d x\<close> is the value of \<open>x.get(k, d)\<close> on a
  dict \<open>x\<close>.
\<close>

function fill_parts :: "json \<Rightarrow> json" where
  "fill_parts (JObj kvs) =
     (case map_of kvs (ascii ''parts'') of
        None \<Rightarrow> JObj ((ascii ''parts'', JArr []) # kvs)
      | Some (JArr cs) \<Rightarrow> JObj ((ascii ''parts'', JArr (map fill_parts cs)) # kvs)
      | Some v \<Rightarrow> JObj kvs)"
| "fill_parts JNull = JNull"
| "fill_parts (JBool b) = JBool b"
| "fill_parts (JNum n) = JNum n"
| "fill_parts (JStr s) = JStr s"
| "fill_parts (JArr xs) = JArr xs"
  by pat_completeness auto

termination fill_parts
proof (relation "measure height", goal_cases)
  case 1
  show ?case by simp
next
  case (2 kvs v cs c)
  then have "height (JArr cs) < height (JObj kvs)"
    by (intro height_map_of) simp
  moreover have "height c \<le> max_list (map height cs)"
    using 2 by (intro max_list_ge) simp
  ultimately show ?case by simp
qed

definition get_or :: "pystr \<Rightarrow> json \<Rightarrow> json \<Rightarrow> json" where
  "get_or k d x = (case dict_get x k d of Inl _ \<Rightarrow> d | Inr v \<Rightarrow> v)"

definition fill_payload :: "json \<Rightarrow> json" where
  "fill_payload payload =
     set_key (ascii ''headers'') (get_or (ascii ''headers'') (JArr []) payload)
       (fill_parts payload)"

definition fill_message :: "json \<Rightarrow> json" where
  "fill_message message =
     set_key (ascii ''payload'') (fill_payload (get_or (ascii ''payload'') (JObj []) message))
       message"

section \<open>Lossy UTF-8 decoding\<close>

lemma utf8_encode_Nil [simp]: "utf8_encode [] = []" by (simp add: utf8_encode_def)
lemma utf8_encode_Cons [simp]: "utf8_encode (c # s) = utf8_encode_cp c @ utf8_encode s" by (simp add: utf8_encode_def)

lemma utf8_encode_cp_two:
  assumes "194 \<le> ch" "ch < 224" "is_continuation_byte ch2"
  shows "utf8_encode_cp (ch * 64 + ch2 - 12416) = [ch, ch2]
    \<and> is_scalar_value (ch * 64 + ch2 - 12416)"
proof -
  define a b where "a = ch - 192" and "b = ch2 - 128"
  have ab: "ch = 192 + a" "ch2 = 128 + b" and bounds: "2 \<le> a" "a < 32" "b < 64"
    using assms unfolding is_continuation_byte_def a_def b_def by auto
  define n where "n = a * 64 + b"
  have n: "ch * 64 + ch2 - 12416 = n"
    unfolding n_def ab by simp
  have d1: "n div 64 = a" and m1: "n mod 64 = b"
    unfolding n_def using bounds by simp_all
  have "128 \<le> n" "n < 2048"
    unfolding n_def using bounds by auto
  then show ?thesis
    unfolding n utf8_encode_cp_def is_scalar_value_def by (simp add: d1 m1 ab)
qed

lemma utf8_encode_cp_three:
  assumes "224 \<le> ch" "ch < 240" "is_continuation_byte ch2" "is_continuation_byte ch3"
    "\<not> (if ch2 < 160 then ch = 224 else ch = 237)"
  shows "utf8_encode_cp (ch * 4096 + ch2 * 64 + ch3 - 925824) = [ch, ch2, ch3]
    \<and> is_scalar_value (ch * 4096 + ch2 * 64 + ch3 - 925824)"
proof -
  define a b c where "a = ch - 224" and "b = ch2 - 128" and "c = ch3 - 128"
  have abc: "ch = 224 + a" "ch2 = 128 + b" "ch3 = 128 + c"
    and bounds: "a < 16" "b < 64" "c < 64"
    using assms unfolding is_continuation_byte_def a_def b_def c_def by auto
  define m where "m = a * 64 + b"
  define n where "n = m * 64 + c"
  have n: "ch * 4096 + ch2 * 64 + ch3 - 925824 = n"
    unfolding n_def m_def abc by simp
  have d1: "n div 64 = m" and m1: "n mod 64 = c"
    unfolding n_def using bounds by simp_all
  have d2: "m div 64 = a" and m2: "m mod 64 = b"
    unfolding m_def using bounds by simp_all
  have d3: "n div 4096 = a"
  proof -
    have "n div 4096 = (n div 64) div 64" by (simp add: div_mult2_eq)
    then show ?thesis by (simp add: d1 d2)
  qed
  have "32 \<le> m" "m < 1024"
    using assms(5) bounds unfolding abc m_def by (auto split: if_splits)
  then have range: "\<not> n < 2048" "n < 65536" unfolding n_def using bounds by simp_all
  have "a \<le> 12 \<or> (a = 13 \<and> b < 32) \<or> 14 \<le> a"
    using assms(5) bounds unfolding abc by (auto split: if_splits)
  then have "m < 864 \<or> 896 \<le> m"
    unfolding m_def using bounds by auto
  then have "n < 55296 \<or> 57344 \<le> n" unfolding n_def using bounds by auto
  with range have "is_scalar_value n" unfolding is_scalar_value_def by simp
  with range show ?thesis
    unfolding n utf8_encode_cp_def by (simp add: d1 d2 d3 m1 m2 abc)
qed

lemma utf8_encode_cp_four:
  assumes "240 \<le> ch" "ch < 245" "is_continuation_byte ch2" "is_continuation_byte ch3"
    "is_continuation_byte ch4" "\<not> (if ch2 < 144 then ch = 240 else ch = 244)"
  shows "utf8_encode_cp (ch * 262144 + ch2 * 4096 + ch3 * 64 + ch4 - 63447168) = [ch, ch2, ch3, ch4]
    \<and> is_scalar_value (ch * 262144 + ch2 * 4096 + ch3 * 64 + ch4 - 63447168)"
proof -
  define a b c d where "a = ch - 240" and "b = ch2 - 128" and "c = ch3 - 128" and "d = ch4 - 128"
  have abcd: "ch = 240 + a" "ch2 = 128 + b" "ch3 = 128 + c" "ch4 = 128 + d"
    and bounds: "a < 5" "b < 64" "c < 64" "d < 64"
    using assms unfolding is_continuation_byte_def a_def b_def c_def d_def by auto
  define k where "k = a * 64 + b"
  define m where "m = k * 64 + c"
  define n where "n = m * 64 + d"
  have n: "ch * 262144 + ch2 * 4096 + ch3 * 64 + ch4 - 63447168 = n"
    unfolding n_def m_def k_def abcd by simp
  have d1: "n div 64 = m" and m1: "n mod 64 = d"
    unfolding n_def using bounds by simp_all
  have d2: "m div 64 = k" and m2: "m mod 64 = c"
    unfolding m_def using bounds by simp_all
  have d3: "k div 64 = a" and m3: "k mod 64 = b"
    unfolding k_def using bounds by simp_all
  have e2: "n div 4096 = k"
  proof -
    have "n div 4096 = (n div 64) div 64" by (simp add: div_mult2_eq)
    then show ?thesis by (simp add: d1 d2)
  qed
  have e3: "n div 262144 = a"
  proof -
    have "n div 262144 = (n div 4096) div 64" by (simp add: div_mult2_eq)
    then show ?thesis by (simp add: e2 d3)
  qed
  have "16 \<le> k"
    using assms(6) bounds unfolding abcd k_def by (auto split: if_splits)
  then have low: "\<not> n < 65536" unfolding n_def m_def by simp
  have "a \<le> 3 \<or> (a = 4 \<and> b < 16)"
    using assms(6) bounds unfolding abcd by (auto split: if_splits)
  then have "k < 272"
    unfolding k_def using bounds by auto
  then have "m < 17408" unfolding m_def using bounds by simp
  then have "n < 1114112" unfolding n_def using bounds by simp
  with low have "is_scalar_value n" unfolding is_scalar_value_def by simp
  with low show ?thesis
    unfolding n utf8_encode_cp_def by (simp add: d1 d2 d3 e2 e3 m1 m2 m3 abcd)
qed


lemma utf8_encode_cp_one: "ch < 128 \<Longrightarrow> utf8_encode_cp ch = [ch]"
  by (simp add: utf8_encode_cp_def)


lemma utf8_ascii: "ch < 128 \<Longrightarrow> utf8_decode_ignore (ch # s1) = ch # utf8_decode_ignore s1"
  by simp

lemma utf8_invalid_start:
  "128 \<le> ch \<Longrightarrow> ch < 194 \<or> 245 \<le> ch \<Longrightarrow> utf8_decode_ignore (ch # s1) = utf8_decode_ignore s1"
  by auto

lemma utf8_two:
  "194 \<le> ch \<Longrightarrow> ch < 224 \<Longrightarrow> utf8_decode_ignore (ch # s1) =
     (case s1 of
        [] \<Rightarrow> []
      | ch2 # s2 \<Rightarrow>
          if \<not> is_continuation_byte ch2 then utf8_decode_ignore s1
          else (ch * 64 + ch2 - 12416) # utf8_decode_ignore s2)"
  by simp

lemma utf8_three:
  "224 \<le> ch \<Longrightarrow> ch < 240 \<Longrightarrow> utf8_decode_ignore (ch # s1) =
     (case s1 of
        [] \<Rightarrow> []
      | ch2 # s2 \<Rightarrow>
          if \<not> is_continuation_byte ch2 \<or> (if ch2 < 160 then ch = 224 else ch = 237)
          then utf8_decode_ignore s1
          else (case s2 of
                  [] \<Rightarrow> []
                | ch3 # s3 \<Rightarrow>
                    if \<not> is_continuation_byte ch3 then utf8_decode_ignore s2
                    else (ch * 4096 + ch2 * 64 + ch3 - 925824) # utf8_decode_ignore s3))"
  by simp

lemma utf8_four:
  "240 \<le> ch \<Longrightarrow> ch < 245 \<Longrightarrow> utf8_decode_ignore (ch # s1) =
     (case s1 of
        [] \<Rightarrow> []
      | ch2 # s2 \<Rightarrow>
          if \<not> is_continuation_byte ch2 \<or> (if ch2 < 144 then ch = 240 else ch = 244)
          then utf8_decode_ignore s1
          else (case s2 of
                  [] \<Rightarrow> []
                | ch3 # s3 \<Rightarrow>
                    if \<not> is_continuation_byte ch3 then utf8_decode_ignore s2
                    else (case s3 of
                            [] \<Rightarrow> []
                          | ch4 # s4 \<Rightarrow>
                              if \<not> is_continuation_byte ch4 then utf8_decode_ignore s3
                              else (ch * 262144 + ch2 * 4096 + ch3 * 64 + ch4 - 63447168)
                                     # utf8_decode_ignore s4)))"
  by simp


declare utf8_decode_ignore.simps(2) [simp del]

text \<open>One step of the decoder: it consumes a non-empty prefix and emits nothing or the
  code point that the prefix encodes.\<close>

lemma utf8_stepI:
  assumes "raw = pre @ rest" "pre \<noteq> []"
    "utf8_decode_ignore raw = out @ utf8_decode_ignore rest"
    "out = [] \<or> (\<exists>c. out = [c] \<and> utf8_encode_cp c = pre \<and> is_scalar_value c)"
  shows "\<exists>pre rest out. raw = pre @ rest \<and> pre \<noteq> []
           \<and> utf8_decode_ignore raw = out @ utf8_decode_ignore rest
           \<and> (out = [] \<or> (\<exists>c. out = [c] \<and> utf8_encode_cp c = pre \<and> is_scalar_value c))"
  using assms by blast

lemma utf8_skip1:
  assumes "utf8_decode_ignore (ch # s1) = utf8_decode_ignore s1"
  shows "\<exists>pre rest out. ch # s1 = pre @ rest \<and> pre \<noteq> []
           \<and> utf8_decode_ignore (ch # s1) = out @ utf8_decode_ignore rest
           \<and> (out = [] \<or> (\<exists>c. out = [c] \<and> utf8_encode_cp c = pre \<and> is_scalar_value c))"
  by (rule utf8_stepI[where pre = "[ch]" and rest = s1 and out = "[]"]) (simp_all add: assms)

lemma utf8_skip_all:
  assumes "utf8_decode_ignore (ch # s1) = []"
  shows "\<exists>pre rest out. ch # s1 = pre @ rest \<and> pre \<noteq> []
           \<and> utf8_decode_ignore (ch # s1) = out @ utf8_decode_ignore rest
           \<and> (out = [] \<or> (\<exists>c. out = [c] \<and> utf8_encode_cp c = pre \<and> is_scalar_value c))"
  by (rule utf8_stepI[where pre = "ch # s1" and rest = "[]" and out = "[]"]) (simp_all add: assms)

lemma utf8_skip2:
  assumes "utf8_decode_ignore (ch # ch2 # s2) = utf8_decode_ignore s2"
  shows "\<exists>pre rest out. ch # ch2 # s2 = pre @ rest \<and> pre \<noteq> []
           \<and> utf8_decode_ignore (ch # ch2 # s2) = out @ utf8_decode_ignore rest
           \<and> (out = [] \<or> (\<exists>c. out = [c] \<and> utf8_encode_cp c = pre \<and> is_scalar_value c))"
  by (rule utf8_stepI[where pre = "[ch, ch2]" and rest = s2 and out = "[]"]) (simp_all add: assms)

lemma utf8_skip3:
  assumes "utf8_decode_ignore (ch # ch2 # ch3 # s3) = utf8_decode_ignore s3"
  shows "\<exists>pre rest out. ch # ch2 # ch3 # s3 = pre @ rest \<and> pre \<noteq> []
           \<and> utf8_decode_ignore (ch # ch2 # ch3 # s3) = out @ utf8_decode_ignore rest
           \<and> (out = [] \<or> (\<exists>c. out = [c] \<and> utf8_encode_cp c = pre \<and> is_scalar_value c))"
  by (rule utf8_stepI[where pre = "[ch, ch2, ch3]" and rest = s3 and out = "[]"]) (simp_all add: assms)

lemma utf8_emit:
  assumes "utf8_decode_ignore (pre @ rest) = c # utf8_decode_ignore rest" "pre \<noteq> []"
    "utf8_encode_cp c = pre \<and> is_scalar_value c"
  shows "\<exists>pre' rest' out. pre @ rest = pre' @ rest' \<and> pre' \<noteq> []
           \<and> utf8_decode_ignore (pre @ rest) = out @ utf8_decode_ignore rest'
           \<and> (out = [] \<or> (\<exists>c. out = [c] \<and> utf8_encode_cp c = pre' \<and> is_scalar_value c))"
  by (rule utf8_stepI[where pre = pre and rest = rest and out = "[c]"]) (simp_all add: assms)


lemma utf8_step:
  "\<exists>pre rest out. ch # s1 = pre @ rest \<and> pre \<noteq> []
     \<and> utf8_decode_ignore (ch # s1) = out @ utf8_decode_ignore rest
     \<and> (out = [] \<or> (\<exists>c. out = [c] \<and> utf8_encode_cp c = pre \<and> is_scalar_value c))"
proof -
  consider (one) "ch < 128" | (bad) "128 \<le> ch" "ch < 194 \<or> 245 \<le> ch"
    | (two) "194 \<le> ch" "ch < 224" | (three) "224 \<le> ch" "ch < 240"
    | (four) "240 \<le> ch" "ch < 245"
    by linarith
  then show ?thesis
  proof cases
    case one
    then have "utf8_decode_ignore ([ch] @ s1) = ch # utf8_decode_ignore s1"
      and "utf8_encode_cp ch = [ch] \<and> is_scalar_value ch"
      by (simp_all add: utf8_ascii utf8_encode_cp_one is_scalar_value_def)
    from utf8_emit[OF this(1) _ this(2)] show ?thesis by simp
  next
    case bad
    then show ?thesis by (intro utf8_skip1 utf8_invalid_start)
  next
    case two
    note eq = utf8_two[OF two]
    show ?thesis
    proof (cases s1)
      case Nil
      then show ?thesis by (intro utf8_skip_all) (simp add: eq)
    next
      case s1: (Cons ch2 s2)
      show ?thesis
      proof (cases "is_continuation_byte ch2")
        case False
        then show ?thesis using s1 by (intro utf8_skip1) (simp add: eq)
      next
        case True
        then have "utf8_decode_ignore ([ch, ch2] @ s2) = (ch * 64 + ch2 - 12416) # utf8_decode_ignore s2"
          using eq[of "ch2 # s2"] by simp
        from utf8_emit[OF this _ utf8_encode_cp_two[OF two True]] show ?thesis unfolding s1 by simp
      qed
    qed
  next
    case three
    note eq = utf8_three[OF three]
    show ?thesis
    proof (cases s1)
      case Nil
      then show ?thesis by (intro utf8_skip_all) (simp add: eq)
    next
      case s1: (Cons ch2 s2)
      show ?thesis
      proof (cases "\<not> is_continuation_byte ch2 \<or> (if ch2 < 160 then ch = 224 else ch = 237)")
        case True
        have "utf8_decode_ignore (ch # ch2 # s2) = utf8_decode_ignore (ch2 # s2)"
          unfolding eq list.case by (rule if_P[OF True])
        then show ?thesis unfolding s1 by (rule utf8_skip1)
      next
        case ok2: False
        show ?thesis
        proof (cases s2)
          case Nil
          then show ?thesis using s1 ok2 eq[of "[ch2]"] by (intro utf8_skip_all) simp
        next
          case s2: (Cons ch3 s3)
          show ?thesis
          proof (cases "is_continuation_byte ch3")
            case False
            then have "utf8_decode_ignore (ch # ch2 # ch3 # s3) = utf8_decode_ignore (ch3 # s3)"
              using ok2 eq[of "ch2 # ch3 # s3"] by simp
            then show ?thesis unfolding s1 s2 by (rule utf8_skip2)
          next
            case True
            then have "utf8_decode_ignore ([ch, ch2, ch3] @ s3)
                = (ch * 4096 + ch2 * 64 + ch3 - 925824) # utf8_decode_ignore s3"
              using ok2 eq[of "ch2 # ch3 # s3"] by simp
            moreover have "utf8_encode_cp (ch * 4096 + ch2 * 64 + ch3 - 925824) = [ch, ch2, ch3]
                \<and> is_scalar_value (ch * 4096 + ch2 * 64 + ch3 - 925824)"
              using ok2 True by (intro utf8_encode_cp_three three) simp_all
            ultimately show ?thesis
              using utf8_emit[of "[ch, ch2, ch3]" s3] unfolding s1 s2 by simp
          qed
        qed
      qed
    qed
  next
    case four
    note eq = utf8_four[OF four]
    show ?thesis
    proof (cases s1)
      case Nil
      then show ?thesis by (intro utf8_skip_all) (simp add: eq)
    next
      case s1: (Cons ch2 s2)
      show ?thesis
      proof (cases "\<not> is_continuation_byte ch2 \<or> (if ch2 < 144 then ch = 240 else ch = 244)")
        case True
        have "utf8_decode_ignore (ch # ch2 # s2) = utf8_decode_ignore (ch2 # s2)"
          unfolding eq list.case by (rule if_P[OF True])
        then show ?thesis unfolding s1 by (rule utf8_skip1)
      next
        case ok2: False
        show ?thesis
        proof (cases s2)
          case Nil
          then show ?thesis using s1 ok2 eq[of "[ch2]"] by (intro utf8_skip_all) simp
        next
          case s2: (Cons ch3 s3)
          show ?thesis
          proof (cases "is_continuation_byte ch3")
            case False
            then have "utf8_decode_ignore (ch # ch2 # ch3 # s3) = utf8_decode_ignore (ch3 # s3)"
              using ok2 eq[of "ch2 # ch3 # s3"] by simp
            then show ?thesis unfolding s1 s2 by (rule utf8_skip2)
          next
            case ok3: True
            show ?thesis
            proof (cases s3)
              case Nil
              then show ?thesis
                using s1 s2 ok2 ok3 eq[of "[ch2, ch3]"] by (intro utf8_skip_all) simp
            next
              case s3: (Cons ch4 s4)
              show ?thesis
              proof (cases "is_continuation_byte ch4")
                case False
                then have "utf8_decode_ignore (ch # ch2 # ch3 # ch4 # s4)
                    = utf8_decode_ignore (ch4 # s4)"
                  using ok2 ok3 eq[of "ch2 # ch3 # ch4 # s4"] by simp
                then show ?thesis unfolding s1 s2 s3 by (rule utf8_skip3)
              next
                case True
                then have "utf8_decode_ignore ([ch, ch2, ch3, ch4] @ s4)
                    = (ch * 262144 + ch2 * 4096 + ch3 * 64 + ch4 - 63447168)
                        # utf8_decode_ignore s4"
                  using ok2 ok3 eq[of "ch2 # ch3 # ch4 # s4"] by simp
                moreover have
                  "utf8_encode_cp (ch * 262144 + ch2 * 4096 + ch3 * 64 + ch4 - 63447168)
                     = [ch, ch2, ch3, ch4]
                   \<and> is_scalar_value (ch * 262144 + ch2 * 4096 + ch3 * 64 + ch4 - 63447168)"
                  using ok2 ok3 True by (intro utf8_encode_cp_four four) simp_all
                ultimately show ?thesis
                  using utf8_emit[of "[ch, ch2, ch3, ch4]" s4] unfolding s1 s2 s3 by simp
              qed
            qed
          qed
        qed
      qed
    qed
  qed
qed

lemma utf8_decode_ignore_lossy:
  "subseq (utf8_encode (utf8_decode_ignore raw)) raw
   \<and> (\<forall>c \<in> set (utf8_decode_ignore raw). is_scalar_value c)"
proof (induction "length raw" arbitrary: raw rule: less_induct)
  case less
  show ?case
  proof (cases raw)
    case Nil
    then show ?thesis by simp
  next
    case (Cons ch s1)
    from utf8_step[of ch s1] obtain pre rest out where
      raw: "raw = pre @ rest" and pre: "pre \<noteq> []"
      and dec: "utf8_decode_ignore raw = out @ utf8_decode_ignore rest"
      and out: "out = [] \<or> (\<exists>c. out = [c] \<and> utf8_encode_cp c = pre \<and> is_scalar_value c)"
      unfolding Cons by blast
    have "length rest < length raw" using raw pre by simp
    from less[OF this] have IH: "subseq (utf8_encode (utf8_decode_ignore rest)) rest"
      "\<forall>c \<in> set (utf8_decode_ignore rest). is_scalar_value c" by simp_all
    from out show ?thesis
    proof
      assume "out = []"
      then show ?thesis using IH dec raw by (simp add: list_emb_append2)
    next
      assume "\<exists>c. out = [c] \<and> utf8_encode_cp c = pre \<and> is_scalar_value c"
      then obtain c where c: "out = [c]" "utf8_encode_cp c = pre" "is_scalar_value c" by blast
      then show ?thesis using IH dec raw by (simp add: list_emb_append_mono)
    qed
  qed
qed


text \<open>
  C7: when the padded base64 decodes to bytes, whether they are valid UTF-8 or not, the
  decoder does not raise. It returns a text, every code point of the text is a Unicode
  scalar value, and the UTF-8 encoding of the text is what remains of the bytes after
  dropping some of them: the invalid sequences are dropped, nothing is replaced.
\<close>

theorem decode_base64url_lossy_utf8:
  assumes "data \<noteq> []" and "urlsafe_b64decode (add_padding data) = Inr raw"
  shows "decode_base64url data = Inr (utf8_decode_ignore raw)
    \<and> subseq (utf8_encode (utf8_decode_ignore raw)) raw
    \<and> list_all is_scalar_value (utf8_decode_ignore raw)"
proof -
  have "decode_base64url data = Inr (utf8_decode_ignore raw)"
    using assms by (simp add: decode_base64url_def)
  then show ?thesis
    using utf8_decode_ignore_lossy[of raw] by (simp add: list_all_iff)
qed

theorem decode_base64url_lossy_utf8_witness:
  "ascii ''SP9p'' \<noteq> []
   \<and> urlsafe_b64decode (add_padding (ascii ''SP9p'')) = Inr [72, 255, 105]
   \<and> decode_base64url (ascii ''SP9p'') = Inr (ascii ''Hi'')
   \<and> subseq (utf8_encode (ascii ''Hi'')) [72, 255, 105]
   \<and> list_all is_scalar_value (ascii ''Hi'')"
proof -
  have n: "ascii ''SP9p'' \<noteq> []"
    by code_simp
  have r: "urlsafe_b64decode (add_padding (ascii ''SP9p'')) = Inr [72, 255, 105]"
    by code_simp
  have d: "utf8_decode_ignore [72, 255, 105] = ascii ''Hi''"
    by code_simp
  from decode_base64url_lossy_utf8[OF n r] show ?thesis
    unfolding d using n r by simp
qed

section \<open>The padding step\<close>

lemma add_padding_eq:
  "add_padding data = data @ replicate ((4 - length data mod 4) mod 4) 61"
proof (cases "length data mod 4 = 0")
  case True
  then show ?thesis by (simp add: add_padding_def)
next
  case False
  then have "(4 - length data mod 4) mod 4 = 4 - length data mod 4" by simp
  with False show ?thesis by (simp add: add_padding_def)
qed

text \<open>
  C4: for non-empty \<open>data\<close> the decoder appends exactly \<open>(4 - len(data) % 4) % 4\<close>
  characters \<open>=\<close> (code 61) before the base64 decoding: none when the length is 0 modulo 4,
  two when it is 2 and one when it is 3.
\<close>

theorem decode_base64url_padding:
  assumes "data \<noteq> []"
  shows "decode_base64url data =
      (case urlsafe_b64decode (data @ replicate ((4 - length data mod 4) mod 4) 61) of
         Inl e \<Rightarrow> Inl e
       | Inr raw \<Rightarrow> Inr (utf8_decode_ignore raw))
    \<and> add_padding data = data @ replicate ((4 - length data mod 4) mod 4) 61
    \<and> (length data mod 4 = 0 \<longrightarrow> add_padding data = data)
    \<and> (length data mod 4 = 2 \<longrightarrow> add_padding data = data @ [61, 61])
    \<and> (length data mod 4 = 3 \<longrightarrow> add_padding data = data @ [61])"
proof -
  have "decode_base64url data =
      (case urlsafe_b64decode (add_padding data) of
         Inl e \<Rightarrow> Inl e
       | Inr raw \<Rightarrow> Inr (utf8_decode_ignore raw))"
    using assms by (simp add: decode_base64url_def)
  moreover have "length data mod 4 = 2 \<longrightarrow> add_padding data = data @ [61, 61]"
    by (simp add: add_padding_def numeral_2_eq_2)
  moreover have "length data mod 4 = 3 \<longrightarrow> add_padding data = data @ [61]"
    by (simp add: add_padding_def)
  moreover have "length data mod 4 = 0 \<longrightarrow> add_padding data = data"
    by (simp add: add_padding_def)
  ultimately show ?thesis
    by (simp add: add_padding_eq)
qed

theorem decode_base64url_padding_witness:
  "ascii ''SGk'' \<noteq> []
   \<and> length (ascii ''SGk'') mod 4 = 3
   \<and> add_padding (ascii ''SGk'') = ascii ''SGk=''
   \<and> decode_base64url (ascii ''SGk'') =
       (case urlsafe_b64decode (ascii ''SGk='') of
          Inl e \<Rightarrow> Inl e
        | Inr raw \<Rightarrow> Inr (utf8_decode_ignore raw))
   \<and> decode_base64url (ascii ''SGk'') = Inr (ascii ''Hi'')"
proof -
  have n: "ascii ''SGk'' \<noteq> []"
    by code_simp
  have l: "length (ascii ''SGk'') mod 4 = 3"
    by code_simp
  have p: "ascii ''SGk'' @ [61] = ascii ''SGk=''"
    by code_simp
  have r: "decode_base64url (ascii ''SGk'') = Inr (ascii ''Hi'')"
    by code_simp
  from decode_base64url_padding[OF n] show ?thesis
    using n l p r by simp
qed

section \<open>Base64 decoding of alphabet characters\<close>

lemma base64url_char_table:
  assumes "is_base64url_char c"
  shows "urlsafe_translation c \<noteq> 61" and "table_a2b_base64 (urlsafe_translation c) < 64"
    and "c < 128"
  using assms
  by (auto simp: is_base64url_char_def urlsafe_translation_def table_a2b_base64_def)

lemma a2b_loop_data_char_eq:
  assumes "c \<noteq> 61" and "table_a2b_base64 c < 64"
  shows "a2b_loop (c # rest) 0 l p out = a2b_loop rest 1 (table_a2b_base64 c) 0 out"
    and "a2b_loop (c # rest) 1 l p out =
      a2b_loop rest 2 (table_a2b_base64 c mod 16) 0
        (out @ [(l * 4 + table_a2b_base64 c div 16) mod 256])"
    and "a2b_loop (c # rest) 2 l p out =
      a2b_loop rest 3 (table_a2b_base64 c mod 4) 0
        (out @ [(l * 16 + table_a2b_base64 c div 4) mod 256])"
    and "a2b_loop (c # rest) 3 l p out =
      a2b_loop rest 0 0 0 (out @ [(l * 64 + table_a2b_base64 c) mod 256])"
  using assms by (simp_all add: Let_def)

lemma a2b_loop_data_char:
  assumes "c \<noteq> 61" and "table_a2b_base64 c < 64" and "q < 4"
  shows "\<exists>l' out'. \<forall>rest. a2b_loop (c # rest) q l p out = a2b_loop rest (Suc q mod 4) l' 0 out'"
proof -
  note eq = a2b_loop_data_char_eq[OF assms(1,2)]
  from \<open>q < 4\<close> consider "q = 0" | "q = 1" | "q = 2" | "q = 3" by linarith
  then show ?thesis
  proof cases
    case 1
    then have m: "Suc q mod 4 = 1" by simp
    show ?thesis unfolding m unfolding 1 by (intro exI allI) (rule eq(1))
  next
    case 2
    then have m: "Suc q mod 4 = 2" by simp
    show ?thesis unfolding m unfolding 2 by (intro exI allI) (rule eq(2))
  next
    case 3
    then have m: "Suc q mod 4 = 3" by simp
    show ?thesis unfolding m unfolding 3 by (intro exI allI) (rule eq(3))
  next
    case 4
    then have m: "Suc q mod 4 = 0" by simp
    show ?thesis unfolding m unfolding 4 by (intro exI allI) (rule eq(4))
  qed
qed

lemma a2b_loop_alphabet:
  assumes "cs \<noteq> []" and "\<forall>c \<in> set cs. is_base64url_char c" and "q < 4"
  shows "\<exists>l' out'. \<forall>rest. a2b_loop (map urlsafe_translation cs @ rest) q l p out
           = a2b_loop rest ((q + length cs) mod 4) l' 0 out'"
  using assms
proof (induction cs arbitrary: q l p out rule: list_nonempty_induct)
  case (single c)
  then have "urlsafe_translation c \<noteq> 61" "table_a2b_base64 (urlsafe_translation c) < 64"
    by (simp_all add: base64url_char_table)
  from a2b_loop_data_char[OF this \<open>q < 4\<close>] show ?case by simp
next
  case (cons c cs)
  then have "urlsafe_translation c \<noteq> 61" "table_a2b_base64 (urlsafe_translation c) < 64"
    by (simp_all add: base64url_char_table)
  from a2b_loop_data_char[OF this \<open>q < 4\<close>, of l p out] obtain l1 out1 where
    step: "\<And>rest. a2b_loop (urlsafe_translation c # rest) q l p out
             = a2b_loop rest (Suc q mod 4) l1 0 out1"
    by blast
  have "\<forall>c \<in> set cs. is_base64url_char c" and "Suc q mod 4 < 4"
    using cons.prems by simp_all
  from cons.IH[OF this, of l1 0 out1] obtain l' out' where
    "\<And>rest. a2b_loop (map urlsafe_translation cs @ rest) (Suc q mod 4) l1 0 out1
        = a2b_loop rest ((Suc q mod 4 + length cs) mod 4) l' 0 out'"
    by blast
  moreover have "(Suc q mod 4 + length cs) mod 4 = (q + length (c # cs)) mod 4"
    by (simp add: mod_simps)
  ultimately show ?case using step by auto
qed

lemma a2b_loop_pads:
  "a2b_loop [] 0 l 0 out = Inr out"
  "a2b_loop [61, 61, 61] 1 l 0 out = Inl BinasciiError"
  "a2b_loop [61, 61] 2 l 0 out = Inr out"
  "a2b_loop [61] 3 l 0 out = Inr out"
  by simp_all

lemma replicate_pads:
  "replicate ((4 - 0) mod 4) (61::nat) = []"
  "replicate ((4 - 1) mod 4) (61::nat) = [61, 61, 61]"
  "replicate ((4 - 2) mod 4) (61::nat) = [61, 61]"
  "replicate ((4 - 3) mod 4) (61::nat) = [61]"
  by code_simp+

lemma a2b_loop_padding:
  assumes "q < 4"
  shows "a2b_loop (replicate ((4 - q) mod 4) 61) q l 0 out =
     (if q = 1 then Inl BinasciiError else Inr out)"
proof -
  from assms consider "q = 0" | "q = 1" | "q = 2" | "q = 3" by linarith
  then show ?thesis
  proof cases
    case 1
    show ?thesis unfolding 1 replicate_pads a2b_loop_pads by simp
  next
    case 2
    show ?thesis unfolding 2 replicate_pads a2b_loop_pads by simp
  next
    case 3
    show ?thesis unfolding 3 replicate_pads a2b_loop_pads by simp
  next
    case 4
    show ?thesis unfolding 4 replicate_pads a2b_loop_pads by simp
  qed
qed

lemma urlsafe_b64decode_alphabet:
  assumes "data \<noteq> []" and "\<forall>c \<in> set data. is_base64url_char c"
  shows "\<exists>raw. urlsafe_b64decode (add_padding data) =
           (if length data mod 4 = 1 then Inl BinasciiError else Inr raw)"
proof -
  let ?q = "length data mod 4"
  let ?pad = "replicate ((4 - ?q) mod 4) 61"
  have ascii: "\<forall>c \<in> set (data @ ?pad). c < 128"
    using assms(2) by (auto simp: base64url_char_table)
  have pad: "urlsafe_translation 61 = 61"
    by (simp add: urlsafe_translation_def)
  from a2b_loop_alphabet[OF assms, of 0 0 0 "[]"] obtain l' out' where
    "\<And>rest. a2b_loop (map urlsafe_translation data @ rest) 0 0 0 []
        = a2b_loop rest ?q l' 0 out'"
    by auto
  then have "a2b_base64 (map urlsafe_translation (data @ ?pad))
      = a2b_loop ?pad ?q l' 0 out'"
    by (simp add: a2b_base64_def pad)
  also have "\<dots> = (if ?q = 1 then Inl BinasciiError else Inr out')"
    by (rule a2b_loop_padding) simp
  finally show ?thesis
    using ascii by (auto simp: urlsafe_b64decode_def encode_ascii_def add_padding_eq)
qed

lemma decode_base64url_non_ascii:
  assumes "\<exists>c \<in> set data. 128 \<le> c"
  shows "decode_base64url data = Inl ValueError"
proof -
  from assms obtain c where c: "c \<in> set data" "128 \<le> c" by blast
  then have ne: "data \<noteq> []" by auto
  have "c \<in> set (add_padding data)"
    using c by (simp add: add_padding_eq)
  moreover have "\<not> c < 128"
    using c by simp
  ultimately have "\<not> (\<forall>x \<in> set (add_padding data). x < 128)"
    by blast
  then have "encode_ascii (add_padding data) = Inl ValueError"
    by (simp add: encode_ascii_def)
  with ne show ?thesis
    by (simp add: decode_base64url_def urlsafe_b64decode_def)
qed

lemma data_char_table:
  assumes "is_data_char c"
  shows "urlsafe_translation c \<noteq> 61" and "table_a2b_base64 (urlsafe_translation c) < 64"
  using assms
  by (auto simp: is_data_char_def is_base64url_char_def urlsafe_translation_def
      table_a2b_base64_def)

lemma other_char_table:
  assumes "\<not> is_data_char c" and "c \<noteq> 61"
  shows "urlsafe_translation c \<noteq> 61" and "64 \<le> table_a2b_base64 (urlsafe_translation c)"
  using assms
  by (auto simp: is_data_char_def is_base64url_char_def urlsafe_translation_def
      table_a2b_base64_def)

lemma a2b_loop_other_char:
  assumes "c \<noteq> 61" and "64 \<le> table_a2b_base64 c"
  shows "a2b_loop (c # rest) q l p out = a2b_loop rest q l p out"
  using assms by (simp add: Let_def)


lemma a2b_loop_no_pad:
  assumes "\<forall>c \<in> set cs. c \<noteq> 61" and "q < 4"
  shows "\<exists>l' out'. \<forall>rest. a2b_loop (map urlsafe_translation cs @ rest) q l p out
           = a2b_loop rest ((q + length (filter is_data_char cs)) mod 4) l'
               (if filter is_data_char cs = [] then p else 0) out'"
  using assms
proof (induction cs arbitrary: q l p out)
  case Nil
  then show ?case by auto
next
  case (Cons c cs)
  then have c: "c \<noteq> 61" and cs: "\<forall>c \<in> set cs. c \<noteq> 61"
    by simp_all
  show ?case
  proof (cases "is_data_char c")
    case True
    from a2b_loop_data_char[OF data_char_table[OF True] \<open>q < 4\<close>, of l p out] obtain l1 out1 where
      step: "\<And>rest. a2b_loop (urlsafe_translation c # rest) q l p out
               = a2b_loop rest (Suc q mod 4) l1 0 out1"
      by blast
    have "Suc q mod 4 < 4" by simp
    from Cons.IH[OF cs this, of l1 0 out1] obtain l' out' where
      "\<And>rest. a2b_loop (map urlsafe_translation cs @ rest) (Suc q mod 4) l1 0 out1
          = a2b_loop rest ((Suc q mod 4 + length (filter is_data_char cs)) mod 4) l'
              (if filter is_data_char cs = [] then 0 else 0) out'"
      by blast
    moreover have "(Suc q mod 4 + length (filter is_data_char cs)) mod 4
        = (q + length (filter is_data_char (c # cs))) mod 4"
      using True by (simp add: mod_simps)
    ultimately have "\<forall>rest. a2b_loop (map urlsafe_translation (c # cs) @ rest) q l p out
        = a2b_loop rest ((q + length (filter is_data_char (c # cs))) mod 4) l' 0 out'"
      using step by (simp del: a2b_loop.simps)
    then show ?thesis
      using True by (intro exI[of _ l'] exI[of _ out']) (simp del: a2b_loop.simps)
  next
    case False
    note skip = a2b_loop_other_char[OF other_char_table[OF False c]]
    from Cons.IH[OF cs \<open>q < 4\<close>, of l p out] obtain l' out' where
      "\<And>rest. a2b_loop (map urlsafe_translation cs @ rest) q l p out
          = a2b_loop rest ((q + length (filter is_data_char cs)) mod 4) l'
              (if filter is_data_char cs = [] then p else 0) out'"
      by blast
    then have "\<forall>rest. a2b_loop (map urlsafe_translation (c # cs) @ rest) q l p out
        = a2b_loop rest ((q + length (filter is_data_char (c # cs))) mod 4) l'
              (if filter is_data_char (c # cs) = [] then p else 0) out'"
      using False by (simp add: skip del: a2b_loop.simps)
    then show ?thesis by blast
  qed
qed

lemma a2b_loop_pad_run:
  assumes "q < 4"
  shows "a2b_loop [] q l 0 out = (if q = 0 then Inr out else Inl BinasciiError)"
    and "a2b_loop [61] q l 0 out = (if q = 0 \<or> q = 3 then Inr out else Inl BinasciiError)"
    and "a2b_loop [61, 61] q l 0 out =
      (if q = 0 \<or> q = 2 \<or> q = 3 then Inr out else Inl BinasciiError)"
    and "a2b_loop [61, 61, 61] q l 0 out =
      (if q = 0 \<or> q = 2 \<or> q = 3 then Inr out else Inl BinasciiError)"
proof -
  from assms consider "q = 0" | "q = 1" | "q = 2" | "q = 3" by linarith
  then show "a2b_loop [] q l 0 out = (if q = 0 then Inr out else Inl BinasciiError)"
    and "a2b_loop [61] q l 0 out = (if q = 0 \<or> q = 3 then Inr out else Inl BinasciiError)"
    and "a2b_loop [61, 61] q l 0 out =
      (if q = 0 \<or> q = 2 \<or> q = 3 then Inr out else Inl BinasciiError)"
    and "a2b_loop [61, 61, 61] q l 0 out =
      (if q = 0 \<or> q = 2 \<or> q = 3 then Inr out else Inl BinasciiError)"
    by (cases; simp)+
qed


lemma a2b_loop_error:
  "a2b_loop cs q l p out = Inl e \<Longrightarrow> e = BinasciiError"
proof (induction cs arbitrary: q l p out)
  case Nil
  then show ?case by (simp split: if_splits)
next
  case (Cons c cs)
  show ?case
  proof (cases "c = 61")
    case True
    with Cons.prems Cons.IH show ?thesis
      by (simp split: if_splits)
  next
    case False
    with Cons.prems Cons.IH show ?thesis
      by (simp add: Let_def split: if_splits)
  qed
qed

lemma urlsafe_b64decode_no_pad:
  assumes "data \<noteq> []" and "\<forall>c \<in> set data. c < 128 \<and> c \<noteq> 61"
  shows "\<exists>raw. urlsafe_b64decode (add_padding data) =
           (if padding_fits data then Inr raw else Inl BinasciiError)"
proof -
  let ?q = "length (filter is_data_char data) mod 4"
  let ?k = "(4 - length data mod 4) mod 4"
  let ?pad = "replicate ?k 61"
  have ascii: "\<forall>c \<in> set (data @ ?pad). c < 128"
    using assms(2) by auto
  have pad: "urlsafe_translation 61 = 61"
    by (simp add: urlsafe_translation_def)
  have "\<forall>c \<in> set data. c \<noteq> 61"
    using assms(2) by blast
  from a2b_loop_no_pad[OF this, of 0 0 0 "[]"] obtain l' out' where
    "\<And>rest. a2b_loop (map urlsafe_translation data @ rest) 0 0 0 []
        = a2b_loop rest ?q l' 0 out'"
    by auto
  then have run: "a2b_base64 (map urlsafe_translation (data @ ?pad)) = a2b_loop ?pad ?q l' 0 out'"
    by (simp add: a2b_base64_def pad del: a2b_loop.simps)
  have q: "?q < 4" by simp
  have "length data mod 4 < 4" by simp
  then consider "length data mod 4 = 0" | "length data mod 4 = 1" | "length data mod 4 = 2"
    | "length data mod 4 = 3"
    by linarith
  then have "a2b_loop ?pad ?q l' 0 out' = (if padding_fits data then Inr out' else Inl BinasciiError)"
  proof cases
    case 1
    have k: "?k = 0" unfolding 1 by simp
    show ?thesis
      unfolding padding_fits_def Let_def k using a2b_loop_pad_run(1)[OF q] by simp
  next
    case 2
    have k: "?k = 3" unfolding 2 by simp
    have r: "replicate 3 (61::nat) = [61, 61, 61]" by code_simp
    show ?thesis
      unfolding padding_fits_def Let_def k r using a2b_loop_pad_run(4)[OF q] q by auto
  next
    case 3
    have k: "?k = 2" unfolding 3 by simp
    have r: "replicate 2 (61::nat) = [61, 61]" by code_simp
    show ?thesis
      unfolding padding_fits_def Let_def k r using a2b_loop_pad_run(3)[OF q] q by auto
  next
    case 4
    have k: "?k = 1" unfolding 4 by simp
    have r: "replicate 1 (61::nat) = [61]" by code_simp
    show ?thesis
      unfolding padding_fits_def Let_def k r using a2b_loop_pad_run(2)[OF q] q by auto
  qed
  with run ascii show ?thesis
    by (auto simp: urlsafe_b64decode_def encode_ascii_def add_padding_eq)
qed

lemma decode_base64url_no_pad:
  assumes "\<forall>c \<in> set data. c < 128 \<and> c \<noteq> 61"
  shows "if padding_fits data then \<exists>text. decode_base64url data = Inr text
         else decode_base64url data = Inl BinasciiError"
proof (cases "data = []")
  case True
  then show ?thesis by (simp add: decode_base64url_def padding_fits_def)
next
  case False
  from urlsafe_b64decode_no_pad[OF False assms] obtain raw where
    "urlsafe_b64decode (add_padding data) =
       (if padding_fits data then Inr raw else Inl BinasciiError)" ..
  with False show ?thesis by (simp add: decode_base64url_def)
qed

lemma decode_base64url_error:
  assumes "decode_base64url data = Inl e"
  shows "e = ValueError \<and> (\<exists>c \<in> set data. 128 \<le> c)
       \<or> e = BinasciiError \<and> (\<forall>c \<in> set data. c < 128)"
proof (cases "\<exists>c \<in> set data. 128 \<le> c")
  case True
  with assms show ?thesis by (simp add: decode_base64url_non_ascii)
next
  case False
  then have low: "\<forall>c \<in> set data. c < 128" by auto
  then have "\<forall>c \<in> set (add_padding data). c < 128"
    by (auto simp: add_padding_eq)
  then have "urlsafe_b64decode (add_padding data)
      = a2b_loop (map urlsafe_translation (add_padding data)) 0 0 0 []"
    by (simp add: urlsafe_b64decode_def encode_ascii_def a2b_base64_def)
  with assms have "a2b_loop (map urlsafe_translation (add_padding data)) 0 0 0 [] = Inl e"
    by (cases "data = []") (auto simp: decode_base64url_def split: sum.splits)
  then have "e = BinasciiError" by (rule a2b_loop_error)
  with low show ?thesis by simp
qed


text \<open>
  C3, as the code has it. The decoder raises to its caller, and the two exceptions it can
  raise are \<open>ValueError\<close> and \<open>binascii.Error\<close>. It raises \<open>ValueError\<close> exactly when the
  input has a character above 127. On an input of ASCII characters without \<open>=\<close>, characters
  outside the alphabet included, it returns a text when the appended padding completes the
  last group of data characters and raises \<open>binascii.Error\<close> when it does not. On an input
  made of characters of the base64url alphabet that is: it raises exactly when the length is
  1 modulo 4.
\<close>

theorem decode_base64url_raises:
  "(decode_base64url data = Inl ValueError \<longleftrightarrow> (\<exists>c \<in> set data. 128 \<le> c))
   \<and> ((\<forall>c \<in> set data. c < 128 \<and> c \<noteq> 61) \<longrightarrow>
        (if padding_fits data then \<exists>text. decode_base64url data = Inr text
         else decode_base64url data = Inl BinasciiError))
   \<and> ((\<forall>c \<in> set data. is_base64url_char c) \<longrightarrow>
        (if length data mod 4 = 1 then decode_base64url data = Inl BinasciiError
         else \<exists>text. decode_base64url data = Inr text))
   \<and> (\<forall>e. decode_base64url data = Inl e \<longrightarrow> e = ValueError \<or> e = BinasciiError)"
proof (intro conjI impI allI)
  show "decode_base64url data = Inl ValueError \<longleftrightarrow> (\<exists>c \<in> set data. 128 \<le> c)"
  proof
    assume "decode_base64url data = Inl ValueError"
    from decode_base64url_error[OF this] show "\<exists>c \<in> set data. 128 \<le> c"
      by simp
  next
    assume "\<exists>c \<in> set data. 128 \<le> c"
    then show "decode_base64url data = Inl ValueError"
      by (rule decode_base64url_non_ascii)
  qed
next
  assume "\<forall>c \<in> set data. c < 128 \<and> c \<noteq> 61"
  then show "if padding_fits data then \<exists>text. decode_base64url data = Inr text
         else decode_base64url data = Inl BinasciiError"
    by (rule decode_base64url_no_pad)
next
  assume alphabet: "\<forall>c \<in> set data. is_base64url_char c"
  show "if length data mod 4 = 1 then decode_base64url data = Inl BinasciiError
       else \<exists>text. decode_base64url data = Inr text"
  proof (cases "data = []")
    case True
    then show ?thesis by (simp add: decode_base64url_def)
  next
    case False
    from urlsafe_b64decode_alphabet[OF False alphabet] obtain raw where
      "urlsafe_b64decode (add_padding data) =
         (if length data mod 4 = 1 then Inl BinasciiError else Inr raw)" ..
    with False show ?thesis by (simp add: decode_base64url_def)
  qed
next
  fix e
  assume "decode_base64url data = Inl e"
  from decode_base64url_error[OF this] show "e = ValueError \<or> e = BinasciiError"
    by blast
qed

theorem decode_base64url_raises_witness:
  "decode_base64url (ascii ''SGVsbG8'') = Inr (ascii ''Hello'')
   \<and> list_all is_base64url_char (ascii ''SGVsb'') \<and> length (ascii ''SGVsb'') mod 4 = 1
   \<and> decode_base64url (ascii ''SGVsb'') = Inl BinasciiError
   \<and> list_all (\<lambda>c. c < 128 \<and> c \<noteq> 61) (ascii ''SG!k'') \<and> \<not> padding_fits (ascii ''SG!k'')
   \<and> decode_base64url (ascii ''SG!k'') = Inl BinasciiError
   \<and> list_all (\<lambda>c. c < 128 \<and> c \<noteq> 61) (ascii ''SGVs!'') \<and> padding_fits (ascii ''SGVs!'')
   \<and> decode_base64url (ascii ''SGVs!'') = Inr (ascii ''Hel'')
   \<and> decode_base64url [83, 233] = Inl ValueError"
proof -
  have a: "decode_base64url (ascii ''SGVsbG8'') = Inr (ascii ''Hello'')"
    by code_simp
  have b: "\<forall>c \<in> set (ascii ''SGVsb''). is_base64url_char c" "length (ascii ''SGVsb'') mod 4 = 1"
    by code_simp+
  have c: "\<forall>c \<in> set (ascii ''SG!k''). c < 128 \<and> c \<noteq> 61" "\<not> padding_fits (ascii ''SG!k'')"
    by code_simp+
  have d: "\<forall>c \<in> set (ascii ''SGVs!''). c < 128 \<and> c \<noteq> 61" "padding_fits (ascii ''SGVs!'')"
    "decode_base64url (ascii ''SGVs!'') = Inr (ascii ''Hel'')"
    by code_simp+
  have e: "\<exists>c \<in> set [83, 233::nat]. 128 \<le> c"
    by simp
  from decode_base64url_raises[of "ascii ''SGVsb''"] b
  have 1: "decode_base64url (ascii ''SGVsb'') = Inl BinasciiError"
    by simp
  from decode_base64url_raises[of "ascii ''SG!k''"] c
  have 2: "decode_base64url (ascii ''SG!k'') = Inl BinasciiError"
    by simp
  from decode_base64url_raises[of "[83, 233]"] e
  have 3: "decode_base64url [83, 233] = Inl ValueError"
    by blast
  from a b c d 1 2 3 show ?thesis
    by (simp add: list_all_iff)
qed

text \<open>
  C3, as the claim states it, fails: the one-character string \<open>A\<close> is padded to \<open>A===\<close>,
  which no base64 text can be, and the decoder raises \<open>binascii.Error\<close> to its caller.
\<close>

theorem decode_base64url_raises_counterexample:
  "decode_base64url (ascii ''A'') = Inl BinasciiError"
  by code_simp

section \<open>The round trip through base64url\<close>

lemma table_b2a_urlsafe_char:
  assumes "n < 64"
  shows "is_base64url_char (table_b2a_urlsafe n)"
  using assms by (auto simp: is_base64url_char_def table_b2a_urlsafe_def)

lemma table_a2b_b2a:
  assumes "n < 64"
  shows "table_a2b_base64 (urlsafe_translation (table_b2a_urlsafe n)) = n"
  using assms
  by (auto simp: table_a2b_base64_def urlsafe_translation_def table_b2a_urlsafe_def)

lemma a2b_loop_sextet:
  assumes "n < 64"
  shows "a2b_loop (urlsafe_translation (table_b2a_urlsafe n) # rest) 0 l p out =
      a2b_loop rest 1 n 0 out"
    and "a2b_loop (urlsafe_translation (table_b2a_urlsafe n) # rest) 1 l p out =
      a2b_loop rest 2 (n mod 16) 0 (out @ [(l * 4 + n div 16) mod 256])"
    and "a2b_loop (urlsafe_translation (table_b2a_urlsafe n) # rest) 2 l p out =
      a2b_loop rest 3 (n mod 4) 0 (out @ [(l * 16 + n div 4) mod 256])"
    and "a2b_loop (urlsafe_translation (table_b2a_urlsafe n) # rest) 3 l p out =
      a2b_loop rest 0 0 0 (out @ [(l * 64 + n) mod 256])"
proof -
  let ?c = "urlsafe_translation (table_b2a_urlsafe n)"
  have c: "?c \<noteq> 61" "table_a2b_base64 ?c < 64"
    using table_b2a_urlsafe_char[OF assms] by (rule base64url_char_table)+
  note eq = a2b_loop_data_char_eq[OF c, unfolded table_a2b_b2a[OF assms]]
  show "a2b_loop (?c # rest) 0 l p out = a2b_loop rest 1 n 0 out" by (rule eq(1))
  show "a2b_loop (?c # rest) 1 l p out =
      a2b_loop rest 2 (n mod 16) 0 (out @ [(l * 4 + n div 16) mod 256])" by (rule eq(2))
  show "a2b_loop (?c # rest) 2 l p out =
      a2b_loop rest 3 (n mod 4) 0 (out @ [(l * 16 + n div 4) mod 256])" by (rule eq(3))
  show "a2b_loop (?c # rest) 3 l p out =
      a2b_loop rest 0 0 0 (out @ [(l * 64 + n) mod 256])" by (rule eq(4))
qed


lemma sextet_parts:
  fixes a :: nat
  assumes "a < 256"
  shows "a div 4 < 64" "a div 16 < 16" "a div 64 < 4" "a mod 4 < 4" "a mod 16 < 16" "a mod 64 < 64"
  using assms by (simp_all add: less_mult_imp_div_less)

lemma sextet_bounds:
  fixes a b c :: nat
  assumes "a < 256" "b < 256" "c < 256"
  shows "a div 4 < 64" "(a mod 4) * 16 + b div 16 < 64" "(b mod 16) * 4 + c div 64 < 64"
    "c mod 64 < 64" "(a mod 4) * 16 < 64" "(b mod 16) * 4 < 64"
  using sextet_parts[OF assms(1)] sextet_parts[OF assms(2)] sextet_parts[OF assms(3)]
  by linarith+

lemma split_div_mod:
  fixes x y k :: nat
  assumes "y < k"
  shows "(x * k + y) div k = x" "(x * k + y) mod k = y"
  using assms by simp_all

lemma sextet_join:
  fixes a b c :: nat
  assumes "a < 256" "b < 256" "c < 256"
  shows "((a div 4) * 4 + ((a mod 4) * 16 + b div 16) div 16) mod 256 = a"
    and "((a mod 4) * 16 + b div 16) mod 16 = b div 16"
    and "((b div 16) * 16 + ((b mod 16) * 4 + c div 64) div 4) mod 256 = b"
    and "((b mod 16) * 4 + c div 64) mod 4 = c div 64"
    and "((c div 64) * 64 + c mod 64) mod 256 = c"
    and "((a div 4) * 4 + ((a mod 4) * 16) div 16) mod 256 = a"
    and "((a mod 4) * 16) mod 16 = 0"
    and "((b div 16) * 16 + ((b mod 16) * 4) div 4) mod 256 = b"
proof -
  note pa = sextet_parts[OF assms(1)] and pb = sextet_parts[OF assms(2)]
    and pc = sextet_parts[OF assms(3)]
  show "((a div 4) * 4 + ((a mod 4) * 16 + b div 16) div 16) mod 256 = a"
    unfolding split_div_mod[OF pb(2)] using assms(1) by simp
  show "((a mod 4) * 16 + b div 16) mod 16 = b div 16"
    by (rule split_div_mod[OF pb(2)])
  show "((b div 16) * 16 + ((b mod 16) * 4 + c div 64) div 4) mod 256 = b"
    unfolding split_div_mod[OF pc(3)] using assms(2) by simp
  show "((b mod 16) * 4 + c div 64) mod 4 = c div 64"
    by (rule split_div_mod[OF pc(3)])
  show "((c div 64) * 64 + c mod 64) mod 256 = c"
    using assms(3) by simp
  show "((a div 4) * 4 + ((a mod 4) * 16) div 16) mod 256 = a"
    using assms(1) by simp
  show "((a mod 4) * 16) mod 16 = 0"
    by simp
  show "((b div 16) * 16 + ((b mod 16) * 4) div 4) mod 256 = b"
    using assms(2) by simp
qed


lemma urlsafe_translation_pad: "urlsafe_translation 61 = 61"
  by (simp add: urlsafe_translation_def)

lemma a2b_loop_encode:
  assumes "\<forall>b \<in> set bs. b < 256"
  shows "a2b_loop (map urlsafe_translation (urlsafe_b64encode bs)) 0 l p out = Inr (out @ bs)"
  using assms
proof (induction bs arbitrary: l p out rule: urlsafe_b64encode.induct)
  case 1
  show ?case by simp
next
  case (2 a)
  then have a: "a < 256" by simp
  note bound = sextet_bounds[OF a a a] and join = sextet_join[OF a a a]
  let ?t = "\<lambda>n. urlsafe_translation (table_b2a_urlsafe n)"
  let ?s0 = "a div 4" and ?s1 = "(a mod 4) * 16"
  have "a2b_loop (map urlsafe_translation (urlsafe_b64encode [a])) 0 l p out
      = a2b_loop [?t ?s0, ?t ?s1, 61, 61] 0 l p out"
    by (simp del: a2b_loop.simps add: urlsafe_translation_pad)
  also have "\<dots> = a2b_loop [?t ?s1, 61, 61] 1 ?s0 0 out"
    by (rule a2b_loop_sextet(1)[OF bound(1)])
  also have "\<dots> = a2b_loop [61, 61] 2 (?s1 mod 16) 0 (out @ [(?s0 * 4 + ?s1 div 16) mod 256])"
    by (rule a2b_loop_sextet(2)[OF bound(5)])
  also have "\<dots> = Inr (out @ [(?s0 * 4 + ?s1 div 16) mod 256])"
    by (rule a2b_loop_pads(3))
  finally show ?case
    unfolding join(6) .
next
  case (3 a b)
  then have ab: "a < 256" "b < 256" by simp_all
  note bound = sextet_bounds[OF ab ab(2)] and join = sextet_join[OF ab ab(2)]
  let ?t = "\<lambda>n. urlsafe_translation (table_b2a_urlsafe n)"
  let ?s0 = "a div 4" and ?s1 = "(a mod 4) * 16 + b div 16" and ?s2 = "(b mod 16) * 4"
  have "a2b_loop (map urlsafe_translation (urlsafe_b64encode [a, b])) 0 l p out
      = a2b_loop [?t ?s0, ?t ?s1, ?t ?s2, 61] 0 l p out"
    by (simp del: a2b_loop.simps add: urlsafe_translation_pad)
  also have "\<dots> = a2b_loop [?t ?s1, ?t ?s2, 61] 1 ?s0 0 out"
    by (rule a2b_loop_sextet(1)[OF bound(1)])
  also have "\<dots> = a2b_loop [?t ?s2, 61] 2 (?s1 mod 16) 0
      (out @ [(?s0 * 4 + ?s1 div 16) mod 256])"
    by (rule a2b_loop_sextet(2)[OF bound(2)])
  also have "\<dots> = a2b_loop [?t ?s2, 61] 2 (b div 16) 0 (out @ [a])"
    unfolding join(1,2) ..
  also have "\<dots> = a2b_loop [61] 3 (?s2 mod 4) 0
      ((out @ [a]) @ [((b div 16) * 16 + ?s2 div 4) mod 256])"
    by (rule a2b_loop_sextet(3)[OF bound(6)])
  also have "\<dots> = Inr ((out @ [a]) @ [((b div 16) * 16 + ?s2 div 4) mod 256])"
    by (rule a2b_loop_pads(4))
  finally show ?case
    unfolding join(8) by simp
next
  case (4 a b c rest)
  then have abc: "a < 256" "b < 256" "c < 256" and rest: "\<forall>b \<in> set rest. b < 256"
    by simp_all
  note bound = sextet_bounds[OF abc] and join = sextet_join[OF abc]
  let ?t = "\<lambda>n. urlsafe_translation (table_b2a_urlsafe n)"
  let ?s0 = "a div 4" and ?s1 = "(a mod 4) * 16 + b div 16"
    and ?s2 = "(b mod 16) * 4 + c div 64" and ?s3 = "c mod 64"
  let ?tl = "map urlsafe_translation (urlsafe_b64encode rest)"
  have "a2b_loop (map urlsafe_translation (urlsafe_b64encode (a # b # c # rest))) 0 l p out
      = a2b_loop (?t ?s0 # ?t ?s1 # ?t ?s2 # ?t ?s3 # ?tl) 0 l p out"
    by (simp del: a2b_loop.simps)
  also have "\<dots> = a2b_loop (?t ?s1 # ?t ?s2 # ?t ?s3 # ?tl) 1 ?s0 0 out"
    by (rule a2b_loop_sextet(1)[OF bound(1)])
  also have "\<dots> = a2b_loop (?t ?s2 # ?t ?s3 # ?tl) 2 (?s1 mod 16) 0
      (out @ [(?s0 * 4 + ?s1 div 16) mod 256])"
    by (rule a2b_loop_sextet(2)[OF bound(2)])
  also have "\<dots> = a2b_loop (?t ?s2 # ?t ?s3 # ?tl) 2 (b div 16) 0 (out @ [a])"
    unfolding join(1,2) ..
  also have "\<dots> = a2b_loop (?t ?s3 # ?tl) 3 (?s2 mod 4) 0
      ((out @ [a]) @ [((b div 16) * 16 + ?s2 div 4) mod 256])"
    by (rule a2b_loop_sextet(3)[OF bound(3)])
  also have "\<dots> = a2b_loop (?t ?s3 # ?tl) 3 (c div 64) 0 ((out @ [a]) @ [b])"
    unfolding join(3,4) ..
  also have "\<dots> = a2b_loop ?tl 0 0 0 (((out @ [a]) @ [b]) @ [((c div 64) * 64 + ?s3) mod 256])"
    by (rule a2b_loop_sextet(4)[OF bound(4)])
  also have "\<dots> = a2b_loop ?tl 0 0 0 (((out @ [a]) @ [b]) @ [c])"
    unfolding join(5) ..
  also have "\<dots> = Inr ((((out @ [a]) @ [b]) @ [c]) @ rest)"
    by (rule "4.IH"[OF rest])
  finally show ?case by simp
qed


lemma urlsafe_b64encode_nopad_chars:
  assumes "\<forall>b \<in> set bs. b < 256"
  shows "\<forall>c \<in> set (urlsafe_b64encode_nopad bs). is_base64url_char c"
  using assms
proof (induction bs rule: urlsafe_b64encode_nopad.induct)
  case 1
  show ?case by simp
next
  case (2 a)
  then have a: "a < 256" by simp
  show ?case
    using sextet_bounds[OF a a a] by (simp add: table_b2a_urlsafe_char)
next
  case (3 a b)
  then have ab: "a < 256" "b < 256" by simp_all
  show ?case
    using sextet_bounds[OF ab ab(2)] by (simp add: table_b2a_urlsafe_char)
next
  case (4 a b c rest)
  then have abc: "a < 256" "b < 256" "c < 256" and rest: "\<forall>b \<in> set rest. b < 256"
    by simp_all
  show ?case
    using sextet_bounds[OF abc] "4.IH"[OF rest] by (simp add: table_b2a_urlsafe_char)
qed

lemma add_padding_quad:
  assumes "length q = 4"
  shows "add_padding (q @ xs) = q @ add_padding xs"
  using assms by (simp add: add_padding_eq)

lemma add_padding_short:
  "add_padding [x, y] = [x, y, 61, 61]" "add_padding [x, y, z] = [x, y, z, 61]"
  by (simp_all add: add_padding_def numeral_2_eq_2)

lemma add_padding_nopad:
  "add_padding (urlsafe_b64encode_nopad bs) = urlsafe_b64encode bs"
proof (induction bs rule: urlsafe_b64encode_nopad.induct)
  case 1
  show ?case by (simp add: add_padding_def)
next
  case (2 a)
  show ?case by (simp add: add_padding_short)
next
  case (3 a b)
  show ?case by (simp add: add_padding_short)
next
  case (4 a b c rest)
  let ?q = "[table_b2a_urlsafe (a div 4), table_b2a_urlsafe ((a mod 4) * 16 + b div 16),
      table_b2a_urlsafe ((b mod 16) * 4 + c div 64), table_b2a_urlsafe (c mod 64)]"
  have "add_padding (?q @ urlsafe_b64encode_nopad rest)
      = ?q @ add_padding (urlsafe_b64encode_nopad rest)"
    by (rule add_padding_quad) simp
  with 4 show ?case by simp
qed

lemma strip_padding_pads:
  assumes "\<forall>c \<in> set xs. c \<noteq> 61"
  shows "strip_padding (xs @ replicate k 61) = xs"
proof -
  have "\<forall>c \<in> set (rev xs). c \<noteq> 61"
    using assms by simp
  then have "dropWhile (\<lambda>c. c = 61) (rev xs) = rev xs"
    by (cases "rev xs") simp_all
  moreover have "dropWhile (\<lambda>c. c = 61) (replicate k 61 @ rev xs)
      = dropWhile (\<lambda>c. c = 61) (rev xs)"
    by (rule dropWhile_append2) simp
  ultimately show ?thesis
    by (simp add: strip_padding_def)
qed

lemma add_padding_pads:
  "\<exists>k. add_padding xs = xs @ replicate k 61"
  using add_padding_eq by blast

lemma strip_padding_encode:
  assumes "\<forall>b \<in> set bs. b < 256"
  shows "strip_padding (urlsafe_b64encode bs) = urlsafe_b64encode_nopad bs"
proof -
  obtain k where "urlsafe_b64encode bs = urlsafe_b64encode_nopad bs @ replicate k 61"
    using add_padding_pads[of "urlsafe_b64encode_nopad bs"] unfolding add_padding_nopad ..
  moreover have "\<forall>c \<in> set (urlsafe_b64encode_nopad bs). c \<noteq> 61"
  proof
    fix c
    assume "c \<in> set (urlsafe_b64encode_nopad bs)"
    with urlsafe_b64encode_nopad_chars[OF assms] have "is_base64url_char c" by blast
    then show "c \<noteq> 61" by (auto simp: is_base64url_char_def)
  qed
  ultimately show ?thesis
    by (simp add: strip_padding_pads)
qed

lemma urlsafe_b64decode_encode:
  assumes "\<forall>b \<in> set bs. b < 256"
  shows "urlsafe_b64decode (add_padding (strip_padding (urlsafe_b64encode bs))) = Inr bs"
proof -
  have chars: "\<forall>c \<in> set (urlsafe_b64encode_nopad bs). c < 128"
    using urlsafe_b64encode_nopad_chars[OF assms] by (auto simp: base64url_char_table)
  obtain k where k: "urlsafe_b64encode bs = urlsafe_b64encode_nopad bs @ replicate k 61"
    using add_padding_pads[of "urlsafe_b64encode_nopad bs"] unfolding add_padding_nopad ..
  have "\<forall>c \<in> set (urlsafe_b64encode bs). c < 128"
    unfolding k using chars by auto
  then have "encode_ascii (urlsafe_b64encode bs) = Inr (urlsafe_b64encode bs)"
    by (simp add: encode_ascii_def)
  then show ?thesis
    unfolding strip_padding_encode[OF assms] add_padding_nopad
    by (simp add: urlsafe_b64decode_def a2b_base64_def a2b_loop_encode[OF assms])
qed

section \<open>The round trip through UTF-8\<close>

lemma utf8_encode_cp_bytes:
  assumes "c < 1114112"
  shows "\<forall>b \<in> set (utf8_encode_cp c). b < 256"
proof -
  have "c div 262144 < 5"
    using assms by (simp add: less_mult_imp_div_less)
  moreover have "c < 65536 \<Longrightarrow> c div 4096 < 16" and "c < 2048 \<Longrightarrow> c div 64 < 32"
    by (simp_all add: less_mult_imp_div_less)
  moreover have "c mod 64 < 64" "(c div 64) mod 64 < 64" "(c div 4096) mod 64 < 64"
    by simp_all
  ultimately show ?thesis
    by (auto simp: utf8_encode_cp_def)
qed

lemma utf8_decode_encode_cp:
  assumes "is_scalar_value c"
  shows "utf8_decode_ignore (utf8_encode_cp c @ rest) = c # utf8_decode_ignore rest"
proof -
  consider (one) "c < 128" | (two) "128 \<le> c" "c < 2048" | (three) "2048 \<le> c" "c < 65536"
    | (four) "65536 \<le> c"
    by linarith
  then show ?thesis
  proof cases
    case one
    then show ?thesis by (simp add: utf8_encode_cp_def utf8_ascii)
  next
    case two
    define a b where "a = c div 64" and "b = c mod 64"
    have c: "c = a * 64 + b" and b: "b < 64"
      by (simp_all add: a_def b_def)
    have a: "2 \<le> a" "a < 32"
      using two unfolding a_def by (simp_all add: less_mult_imp_div_less less_eq_div_iff_mult_less_eq)
    have enc: "utf8_encode_cp c = [192 + a, 128 + b]"
      using two by (simp add: utf8_encode_cp_def a_def b_def)
    have "utf8_decode_ignore ((192 + a) # (128 + b) # rest)
        = ((192 + a) * 64 + (128 + b) - 12416) # utf8_decode_ignore rest"
      using a b by (subst utf8_two) (simp_all add: is_continuation_byte_def)
    also have "(192 + a) * 64 + (128 + b) - 12416 = c"
      unfolding c by simp
    finally show ?thesis by (simp add: enc)
  next
    case three
    define m d where "m = c div 64" and "d = c mod 64"
    define a b where "a = m div 64" and "b = m mod 64"
    have c: "c = m * 64 + d" and d: "d < 64" and m: "m = a * 64 + b" and b: "b < 64"
      by (simp_all add: a_def b_def m_def d_def)
    have a4096: "c div 4096 = a"
      unfolding a_def m_def by (simp add: div_mult2_eq)
    have mr: "32 \<le> m" "m < 1024"
      using three unfolding m_def by (simp_all add: less_mult_imp_div_less less_eq_div_iff_mult_less_eq)
    then have a: "a < 16"
      unfolding a_def by (simp add: less_mult_imp_div_less)
    have sur: "m < 864 \<or> 896 \<le> m"
      using assms three unfolding is_scalar_value_def m_def
      by (auto simp: less_mult_imp_div_less less_eq_div_iff_mult_less_eq)
    have ok2: "\<not> (\<not> is_continuation_byte (128 + b)
        \<or> (if 128 + b < 160 then 224 + a = 224 else 224 + a = 237))"
      using b mr sur unfolding m by (auto simp: is_continuation_byte_def)
    have enc: "utf8_encode_cp c = [224 + a, 128 + b, 128 + d]"
      using three by (simp add: utf8_encode_cp_def a4096 m_def[symmetric] b_def[symmetric] d_def[symmetric])
    have "utf8_decode_ignore ((224 + a) # (128 + b) # (128 + d) # rest)
        = ((224 + a) * 4096 + (128 + b) * 64 + (128 + d) - 925824) # utf8_decode_ignore rest"
      using a d ok2 by (subst utf8_three) (simp_all add: is_continuation_byte_def)
    also have "(224 + a) * 4096 + (128 + b) * 64 + (128 + d) - 925824 = c"
      unfolding c m by simp
    finally show ?thesis by (simp add: enc)
  next
    case four
    define m d where "m = c div 64" and "d = c mod 64"
    define k e where "k = m div 64" and "e = m mod 64"
    define a b where "a = k div 64" and "b = k mod 64"
    have c: "c = m * 64 + d" and d: "d < 64" and m: "m = k * 64 + e" and e: "e < 64"
      and k: "k = a * 64 + b" and b: "b < 64"
      by (simp_all add: a_def b_def k_def e_def m_def d_def)
    have k4096: "c div 4096 = k"
      unfolding k_def m_def by (simp add: div_mult2_eq)
    have a262144: "c div 262144 = a"
    proof -
      have "c div 262144 = (c div 4096) div 64" by (simp add: div_mult2_eq)
      then show ?thesis by (simp add: k4096 a_def)
    qed
    have "c < 1114112"
      using assms four by (simp add: is_scalar_value_def)
    then have kr: "k < 272"
      unfolding k4096[symmetric] by (simp add: less_mult_imp_div_less)
    have kl: "16 \<le> k"
      using four unfolding k4096[symmetric] by (simp add: less_eq_div_iff_mult_less_eq)
    have a: "a < 5"
      using kr unfolding a_def by (simp add: less_mult_imp_div_less)
    have ok2: "\<not> (\<not> is_continuation_byte (128 + b)
        \<or> (if 128 + b < 144 then 240 + a = 240 else 240 + a = 244))"
      using b kl kr unfolding k by (auto simp: is_continuation_byte_def)
    have enc: "utf8_encode_cp c = [240 + a, 128 + b, 128 + e, 128 + d]"
      using four
      by (simp add: utf8_encode_cp_def a262144 k4096 b_def[symmetric] m_def[symmetric]
          e_def[symmetric] d_def[symmetric])
    have "utf8_decode_ignore ((240 + a) # (128 + b) # (128 + e) # (128 + d) # rest)
        = ((240 + a) * 262144 + (128 + b) * 4096 + (128 + e) * 64 + (128 + d) - 63447168)
            # utf8_decode_ignore rest"
      using a d e ok2 by (subst utf8_four) (simp_all add: is_continuation_byte_def)
    also have "(240 + a) * 262144 + (128 + b) * 4096 + (128 + e) * 64 + (128 + d) - 63447168 = c"
      unfolding c m k by simp
    finally show ?thesis by (simp add: enc)
  qed
qed


lemma utf8_decode_encode:
  assumes "\<forall>c \<in> set s. is_scalar_value c"
  shows "utf8_decode_ignore (utf8_encode s) = s"
  using assms by (induction s) (simp_all add: utf8_decode_encode_cp)

lemma utf8_encode_bytes:
  assumes "\<forall>c \<in> set s. is_scalar_value c"
  shows "\<forall>b \<in> set (utf8_encode s). b < 256"
proof -
  have "\<forall>b \<in> set (utf8_encode_cp c). b < 256" if "c \<in> set s" for c
  proof (rule utf8_encode_cp_bytes)
    from that assms have "is_scalar_value c" by blast
    then show "c < 1114112" by (auto simp: is_scalar_value_def)
  qed
  then show ?thesis
    by (auto simp: utf8_encode_def)
qed

text \<open>
  C8: for every text of Unicode scalar values (every text that has a UTF-8 encoding, ASCII
  text among them), decoding the padding-stripped base64url encoding of the text gives the
  text back.
\<close>

theorem decode_base64url_round_trip:
  assumes "\<forall>c \<in> set s. is_scalar_value c"
  shows "decode_base64url (provider_encode s) = Inr s"
proof (cases "provider_encode s = []")
  case True
  have bytes: "\<forall>b \<in> set (utf8_encode s). b < 256"
    using assms by (rule utf8_encode_bytes)
  from True have "urlsafe_b64decode (add_padding []) = Inr (utf8_encode s)"
    using urlsafe_b64decode_encode[OF bytes] by (simp add: provider_encode_def)
  moreover have "urlsafe_b64decode (add_padding []) = Inr []"
    by (simp add: add_padding_def urlsafe_b64decode_def encode_ascii_def a2b_base64_def)
  ultimately have "utf8_encode s = []" by simp
  then have "utf8_decode_ignore (utf8_encode s) = []" by simp
  then have "s = []"
    unfolding utf8_decode_encode[OF assms] .
  with True show ?thesis by (simp add: decode_base64url_def)
next
  case False
  have bytes: "\<forall>b \<in> set (utf8_encode s). b < 256"
    using assms by (rule utf8_encode_bytes)
  have "urlsafe_b64decode (add_padding (provider_encode s)) = Inr (utf8_encode s)"
    unfolding provider_encode_def by (rule urlsafe_b64decode_encode[OF bytes])
  with False show ?thesis
    by (simp add: decode_base64url_def utf8_decode_encode[OF assms])
qed


theorem decode_base64url_round_trip_witness:
  "list_all is_scalar_value [72, 233, 8364, 128512]
   \<and> provider_encode [72, 233, 8364, 128512] = ascii ''SMOp4oKs8J-YgA''
   \<and> decode_base64url (ascii ''SMOp4oKs8J-YgA'') = Inr [72, 233, 8364, 128512]"
proof -
  have s: "\<forall>c \<in> set [72, 233, 8364, 128512]. is_scalar_value c"
    by (simp add: is_scalar_value_def)
  have u: "utf8_encode [72, 233, 8364, 128512] = [72, 195, 169, 226, 130, 172, 240, 159, 152, 128]"
    by (simp add: utf8_encode_cp_def)
  have b: "strip_padding (urlsafe_b64encode [72, 195, 169, 226, 130, 172, 240, 159, 152, 128])
      = ascii ''SMOp4oKs8J-YgA''"
    by code_simp
  have e: "provider_encode [72, 233, 8364, 128512] = ascii ''SMOp4oKs8J-YgA''"
    unfolding provider_encode_def u by (rule b)
  from decode_base64url_round_trip[OF s] show ?thesis
    using s unfolding e by (simp add: list_all_iff)
qed

section \<open>The header pass\<close>

lemma ascii_subject_from: "ascii ''subject'' \<noteq> ascii ''from''"
  by (simp add: ascii_def)

lemma header_loop_step:
  assumes "header_ok h"
  shows "header_loop (h # hs) subject sender =
     header_loop hs
       (if header_named ''subject'' h then header_value h else subject)
       (if header_named ''from'' h then header_value h else sender)"
proof -
  from assms obtain kvs n where h: "h = JObj kvs"
    and n: "dict_get h (ascii ''name'') (JStr []) = Inr (JStr n)"
    by (cases h) (auto simp: header_ok_def split: option.splits json.splits)
  have v: "dict_get h (ascii ''value'') (JStr []) = Inr (header_value h)"
    by (simp add: h header_value_def)
  show ?thesis
    using ascii_subject_from by (auto simp: n v header_named_def)
qed

declare header_loop.simps(2) [simp del]

lemma find_snoc:
  "find P (xs @ [x]) = (case find P xs of None \<Rightarrow> if P x then Some x else None | Some y \<Rightarrow> Some y)"
  by (induction xs) simp_all

lemma header_loop_last:
  assumes "\<forall>h \<in> set hs. header_ok h"
  shows "header_loop hs subject sender =
     Inr (case find (header_named ''subject'') (rev hs) of
            None \<Rightarrow> subject
          | Some h \<Rightarrow> header_value h,
          case find (header_named ''from'') (rev hs) of
            None \<Rightarrow> sender
          | Some h \<Rightarrow> header_value h)"
  using assms
proof (induction hs arbitrary: subject sender)
  case Nil
  show ?case by simp
next
  case (Cons h hs)
  then have "header_ok h" and rest: "\<forall>h \<in> set hs. header_ok h"
    by simp_all
  then show ?case
    unfolding header_loop_step[OF \<open>header_ok h\<close>] Cons.IH[OF rest]
    by (simp add: find_snoc split: option.splits)
qed

lemma header_loop_ignores:
  assumes "\<forall>h \<in> set hs. header_ok h"
  shows "header_loop (filter (\<lambda>h. header_named ''subject'' h \<or> header_named ''from'' h) hs)
           subject sender
         = header_loop hs subject sender"
  using assms
proof (induction hs arbitrary: subject sender)
  case Nil
  show ?case by simp
next
  case (Cons h hs)
  then have "header_ok h" and rest: "\<forall>h \<in> set hs. header_ok h"
    by simp_all
  show ?case
  proof (cases "header_named ''subject'' h \<or> header_named ''from'' h")
    case True
    then show ?thesis
      using Cons.IH[OF rest] by (simp add: header_loop_step[OF \<open>header_ok h\<close>])
  next
    case False
    then show ?thesis
      using Cons.IH[OF rest] by (simp add: header_loop_step[OF \<open>header_ok h\<close>])
  qed
qed

text \<open>
  C5: on a sequence of well-formed headers the header pass returns, for \<open>subject\<close> and for
  \<open>from\<close>, the value of the last header whose lower-cased name is the key, and the empty
  string when no header has that name; headers of other names can be removed without
  changing the result; and these are the subject and the sender that
  \<open>extract_email_fields\<close> returns.
\<close>

theorem extract_headers_last_wins:
  assumes "dict_get message (ascii ''payload'') (JObj []) = Inr payload"
    and "dict_get payload (ascii ''headers'') (JArr []) = Inr (JArr hs)"
    and "\<forall>h \<in> set hs. header_ok h"
  shows "extract_headers payload = Inr (last_header ''subject'' hs, last_header ''from'' hs)
    \<and> (\<forall>sender subject body.
          extract_email_fields message = Inr (sender, subject, body) \<longrightarrow>
          subject = last_header ''subject'' hs \<and> sender = last_header ''from'' hs)
    \<and> header_loop (filter (\<lambda>h. header_named ''subject'' h \<or> header_named ''from'' h) hs)
          (JStr []) (JStr [])
        = header_loop hs (JStr []) (JStr [])
    \<and> ((\<forall>h \<in> set hs. \<not> header_named ''subject'' h) \<longrightarrow> last_header ''subject'' hs = JStr [])
    \<and> ((\<forall>h \<in> set hs. \<not> header_named ''from'' h) \<longrightarrow> last_header ''from'' hs = JStr [])"
proof -
  have pass: "extract_headers payload = Inr (last_header ''subject'' hs, last_header ''from'' hs)"
    using assms(2) header_loop_last[OF assms(3)]
    by (simp add: extract_headers_def last_header_def)
  have "subject = last_header ''subject'' hs \<and> sender = last_header ''from'' hs"
    if "extract_email_fields message = Inr (sender, subject, body)" for sender subject body
    using that assms(1) pass
    by (auto simp: extract_email_fields_def split: sum.splits if_splits)
  moreover have "last_header key hs = JStr []" if "\<forall>h \<in> set hs. \<not> header_named key h" for key
  proof -
    from that have "find (header_named key) (rev hs) = None"
      by (simp add: find_None_iff)
    then show ?thesis by (simp add: last_header_def)
  qed
  ultimately show ?thesis
    using pass header_loop_ignores[OF assms(3)] by blast
qed

theorem extract_headers_last_wins_witness:
  "extract_email_fields
     (JObj [(ascii ''payload'', JObj [(ascii ''headers'', JArr
        [JObj [(ascii ''name'', JStr (ascii ''Subject'')), (ascii ''value'', JStr (ascii ''Hi''))],
         JObj [(ascii ''name'', JStr (ascii ''X-Other'')), (ascii ''value'', JStr (ascii ''zz''))],
         JObj [(ascii ''name'', JStr (ascii ''from'')), (ascii ''value'', JStr (ascii ''a@b.com''))],
         JObj [(ascii ''name'', JStr (ascii ''SUBJECT'')), (ascii ''value'', JStr (ascii ''Again''))]])])])
   = Inr (JStr (ascii ''a@b.com''), JStr (ascii ''Again''), [])
   \<and> last_header ''subject''
        [JObj [(ascii ''name'', JStr (ascii ''Subject'')), (ascii ''value'', JStr (ascii ''Hi''))],
         JObj [(ascii ''name'', JStr (ascii ''X-Other'')), (ascii ''value'', JStr (ascii ''zz''))],
         JObj [(ascii ''name'', JStr (ascii ''from'')), (ascii ''value'', JStr (ascii ''a@b.com''))],
         JObj [(ascii ''name'', JStr (ascii ''SUBJECT'')), (ascii ''value'', JStr (ascii ''Again''))]]
     = JStr (ascii ''Again'')"
proof -
  let ?hs = "[JObj [(ascii ''name'', JStr (ascii ''Subject'')), (ascii ''value'', JStr (ascii ''Hi''))],
         JObj [(ascii ''name'', JStr (ascii ''X-Other'')), (ascii ''value'', JStr (ascii ''zz''))],
         JObj [(ascii ''name'', JStr (ascii ''from'')), (ascii ''value'', JStr (ascii ''a@b.com''))],
         JObj [(ascii ''name'', JStr (ascii ''SUBJECT'')), (ascii ''value'', JStr (ascii ''Again''))]]"
  let ?payload = "JObj [(ascii ''headers'', JArr ?hs)]"
  let ?message = "JObj [(ascii ''payload'', ?payload)]"
  have p: "dict_get ?message (ascii ''payload'') (JObj []) = Inr ?payload"
    by simp
  have h: "dict_get ?payload (ascii ''headers'') (JArr []) = Inr (JArr ?hs)"
    by simp
  have ok: "\<forall>h \<in> set ?hs. header_ok h"
    by (simp add: header_ok_def)
  have r: "extract_email_fields ?message = Inr (JStr (ascii ''a@b.com''), JStr (ascii ''Again''), [])"
    by code_simp
  from extract_headers_last_wins[OF p h ok] r show ?thesis
    by simp
qed

section \<open>The inline body\<close>

lemma body_data_truthy:
  assumes "body_data x = Inr d" and "truthy d"
  shows "\<exists>b. subscript x (ascii ''body'') = Inr b \<and> subscript b (ascii ''data'') = Inr d"
proof -
  from assms(1) obtain kvs where x: "x = JObj kvs"
    by (cases x) (simp_all add: body_data_def)
  show ?thesis
  proof (cases "map_of kvs (ascii ''body'')")
    case None
    with assms show ?thesis by (simp add: x body_data_def)
  next
    case (Some b)
    with assms(1) have d: "dict_get b (ascii ''data'') JNull = Inr d"
      by (simp add: x body_data_def)
    then obtain bkvs where b: "b = JObj bkvs"
      by (cases b) simp_all
    from d assms(2) have "map_of bkvs (ascii ''data'') = Some d"
      by (cases "map_of bkvs (ascii ''data'')") (auto simp: b)
    with Some show ?thesis by (simp add: x b)
  qed
qed

lemma ascii_keys_distinct:
  "ascii ''parts'' \<noteq> ascii ''headers''" "ascii ''parts'' \<noteq> ascii ''body''"
  "ascii ''headers'' \<noteq> ascii ''parts''" "ascii ''body'' \<noteq> ascii ''parts''"
  by (simp_all add: ascii_def)

lemma set_parts_unchanged:
  assumes "body_data payload = Inr data"
  shows "body_data (set_key (ascii ''parts'') parts payload) = Inr data"
    and "extract_headers (set_key (ascii ''parts'') parts payload) = extract_headers payload"
    and "subscript (set_key (ascii ''parts'') parts payload) (ascii ''body'')
      = subscript payload (ascii ''body'')"
proof -
  from assms obtain kvs where x: "payload = JObj kvs"
    by (cases payload) (simp_all add: body_data_def)
  show "body_data (set_key (ascii ''parts'') parts payload) = Inr data"
    using assms by (simp add: x body_data_def ascii_keys_distinct)
  show "extract_headers (set_key (ascii ''parts'') parts payload) = extract_headers payload"
    by (simp add: x extract_headers_def ascii_keys_distinct)
  show "subscript (set_key (ascii ''parts'') parts payload) (ascii ''body'')
      = subscript payload (ascii ''body'')"
    by (simp add: x ascii_keys_distinct)
qed

lemma extract_inline:
  assumes "dict_get message (ascii ''payload'') (JObj []) = Inr payload"
    and "extract_headers payload = Inr (subject, sender)"
    and "body_data payload = Inr data" and "truthy data"
  shows "extract_email_fields message =
      (case call_decode data of
         Inl e \<Rightarrow> Inl e
       | Inr body \<Rightarrow> Inr (sender, subject, body))"
proof -
  from body_data_truthy[OF assms(3,4)] obtain b where
    "subscript payload (ascii ''body'') = Inr b" "subscript b (ascii ''data'') = Inr data"
    by blast
  with assms show ?thesis
    by (simp add: extract_email_fields_def)
qed

text \<open>
  C2: when the top-level payload has an inline body with data that passes the truth test (a
  non-empty str), \<open>extract_email_fields\<close> returns the header fields with that data decoded
  as the body, or raises what the decoder raises. The parts are never consulted: the result
  is the same whatever is stored under \<open>parts\<close> in the payload.
\<close>

theorem extract_inline_body:
  assumes "dict_get message (ascii ''payload'') (JObj []) = Inr payload"
    and "extract_headers payload = Inr (subject, sender)"
    and "body_data payload = Inr data" and "truthy data"
  shows "extract_email_fields message =
      (case call_decode data of
         Inl e \<Rightarrow> Inl e
       | Inr body \<Rightarrow> Inr (sender, subject, body))
    \<and> (\<forall>parts. extract_email_fields
          (set_key (ascii ''payload'') (set_key (ascii ''parts'') parts payload) message)
        = extract_email_fields message)"
proof (intro conjI allI)
  show inline: "extract_email_fields message =
      (case call_decode data of
         Inl e \<Rightarrow> Inl e
       | Inr body \<Rightarrow> Inr (sender, subject, body))"
    using assms by (rule extract_inline)
  fix parts
  let ?payload = "set_key (ascii ''parts'') parts payload"
  let ?message = "set_key (ascii ''payload'') ?payload message"
  from assms(1) obtain kvs where m: "message = JObj kvs"
    by (cases message) simp_all
  have "dict_get ?message (ascii ''payload'') (JObj []) = Inr ?payload"
    by (simp add: m)
  moreover have "extract_headers ?payload = Inr (subject, sender)"
    using assms(2) by (simp add: set_parts_unchanged[OF assms(3)])
  moreover have "body_data ?payload = Inr data"
    by (rule set_parts_unchanged[OF assms(3)])
  ultimately have "extract_email_fields ?message =
      (case call_decode data of
         Inl e \<Rightarrow> Inl e
       | Inr body \<Rightarrow> Inr (sender, subject, body))"
    using assms(4) by (rule extract_inline)
  with inline show "extract_email_fields ?message = extract_email_fields message"
    by simp
qed

theorem extract_inline_body_witness:
  "extract_email_fields
     (JObj [(ascii ''payload'', JObj
        [(ascii ''headers'', JArr
           [JObj [(ascii ''name'', JStr (ascii ''Subject'')), (ascii ''value'', JStr (ascii ''Hi''))],
            JObj [(ascii ''name'', JStr (ascii ''from'')), (ascii ''value'', JStr (ascii ''a@b.com''))]]),
         (ascii ''body'', JObj [(ascii ''data'', JStr (ascii ''SGVsbG8''))]),
         (ascii ''parts'', JArr [JObj [(ascii ''mimeType'', JStr (ascii ''text/plain'')),
            (ascii ''body'', JObj [(ascii ''data'', JStr (ascii ''SGk''))])]])])])
   = Inr (JStr (ascii ''a@b.com''), JStr (ascii ''Hi''), ascii ''Hello'')
   \<and> extract_email_fields
     (set_key (ascii ''payload'') (set_key (ascii ''parts'') (JNum 5) (JObj
        [(ascii ''headers'', JArr
           [JObj [(ascii ''name'', JStr (ascii ''Subject'')), (ascii ''value'', JStr (ascii ''Hi''))],
            JObj [(ascii ''name'', JStr (ascii ''from'')), (ascii ''value'', JStr (ascii ''a@b.com''))]]),
         (ascii ''body'', JObj [(ascii ''data'', JStr (ascii ''SGVsbG8''))]),
         (ascii ''parts'', JArr [JObj [(ascii ''mimeType'', JStr (ascii ''text/plain'')),
            (ascii ''body'', JObj [(ascii ''data'', JStr (ascii ''SGk''))])]])]))
      (JObj [(ascii ''payload'', JObj
        [(ascii ''headers'', JArr
           [JObj [(ascii ''name'', JStr (ascii ''Subject'')), (ascii ''value'', JStr (ascii ''Hi''))],
            JObj [(ascii ''name'', JStr (ascii ''from'')), (ascii ''value'', JStr (ascii ''a@b.com''))]]),
         (ascii ''body'', JObj [(ascii ''data'', JStr (ascii ''SGVsbG8''))]),
         (ascii ''parts'', JArr [JObj [(ascii ''mimeType'', JStr (ascii ''text/plain'')),
            (ascii ''body'', JObj [(ascii ''data'', JStr (ascii ''SGk''))])]])])]))
   = Inr (JStr (ascii ''a@b.com''), JStr (ascii ''Hi''), ascii ''Hello'')"
proof -
  let ?payload = "JObj
        [(ascii ''headers'', JArr
           [JObj [(ascii ''name'', JStr (ascii ''Subject'')), (ascii ''value'', JStr (ascii ''Hi''))],
            JObj [(ascii ''name'', JStr (ascii ''from'')), (ascii ''value'', JStr (ascii ''a@b.com''))]]),
         (ascii ''body'', JObj [(ascii ''data'', JStr (ascii ''SGVsbG8''))]),
         (ascii ''parts'', JArr [JObj [(ascii ''mimeType'', JStr (ascii ''text/plain'')),
            (ascii ''body'', JObj [(ascii ''data'', JStr (ascii ''SGk''))])]])]"
  let ?message = "JObj [(ascii ''payload'', ?payload)]"
  have p: "dict_get ?message (ascii ''payload'') (JObj []) = Inr ?payload"
    by simp
  have h: "extract_headers ?payload = Inr (JStr (ascii ''Hi''), JStr (ascii ''a@b.com''))"
    by code_simp
  have d: "body_data ?payload = Inr (JStr (ascii ''SGVsbG8''))"
    by code_simp
  have t: "truthy (JStr (ascii ''SGVsbG8''))"
    by code_simp
  have c: "call_decode (JStr (ascii ''SGVsbG8'')) = Inr (ascii ''Hello'')"
    by code_simp
  from extract_inline_body[OF p h d t] show ?thesis
    unfolding c by simp
qed

section \<open>The walk over the parts\<close>

lemma walk_loop_text_part:
  assumes "is_text_part part"
  shows "walk_loop (part # rest) = part_text part"
  using assms
  by (auto simp: is_text_part_def part_text_def split: sum.splits)


lemma dict_get_truthy_subscript:
  assumes "dict_get x k JNull = Inr v" and "truthy v"
  shows "subscript x k = Inr v"
proof -
  from assms(1) obtain kvs where x: "x = JObj kvs"
    by (cases x) simp_all
  from assms have "map_of kvs k = Some v"
    by (cases "map_of kvs k") (auto simp: x)
  then show ?thesis by (simp add: x)
qed

lemma walk_loop_other_part:
  assumes "part_ok part" and "\<not> is_text_part part"
  shows "walk_loop (part # rest) =
     (case walk_loop (children part) of
        Inl e \<Rightarrow> Inl e
      | Inr result \<Rightarrow> if result \<noteq> [] then Inr result else walk_loop rest)"
proof -
  from assms(1) obtain data sub where data: "body_data part = Inr data"
    and sub: "dict_get part (ascii ''parts'') JNull = Inr sub"
    and iter: "\<not> truthy sub \<or> (\<exists>items. py_iter sub = Inr items)"
    by (auto simp: part_ok_def split: sum.splits)
  from sub obtain kvs where part: "part = JObj kvs"
    by (cases part) simp_all
  then obtain mime where mime: "dict_get part (ascii ''mimeType'') (JStr []) = Inr mime"
    by simp
  from assms(2) have no: "\<not> (is_text_mime mime \<and> truthy data)"
    by (simp add: is_text_part_def mime data)
  show ?thesis
  proof (cases "truthy sub")
    case False
    then have "children part = []"
      by (simp add: children_def sub)
    with False no show ?thesis
      by (auto simp: mime data sub simp del: dict_get.simps)
  next
    case True
    with iter obtain items where items: "py_iter sub = Inr items" by blast
    have "children part = items"
      by (simp add: children_def sub True items)
    moreover have "subscript part (ascii ''parts'') = Inr sub"
      using sub True by (rule dict_get_truthy_subscript)
    ultimately show ?thesis
      using True no by (auto simp: mime data sub items simp del: dict_get.simps subscript.simps)
  qed
qed

declare walk_loop.simps(2) [simp del]

lemma walk_loop_pass:
  assumes "\<forall>p \<in> set (preorder ps). part_ok p \<and> \<not> is_text_part p"
  shows "walk_loop (ps @ rest) = walk_loop rest"
  using assms
proof (induction ps arbitrary: rest rule: preorder.induct)
  case 1
  show ?case by simp
next
  case (2 part ps)
  then have part: "part_ok part" "\<not> is_text_part part"
    and ch: "\<forall>p \<in> set (preorder (children part)). part_ok p \<and> \<not> is_text_part p"
    and ps: "\<forall>p \<in> set (preorder ps). part_ok p \<and> \<not> is_text_part p"
    by simp_all
  have "walk_loop (children part @ []) = walk_loop []"
    using ch by (rule "2.IH"(1))
  then have "walk_loop (children part) = Inr []" by simp
  then show ?case
    using "2.IH"(2)[OF ps] by (simp add: walk_loop_other_part[OF part])
qed


lemma find_append_case:
  "find P (xs @ ys) = (case find P xs of None \<Rightarrow> find P ys | Some x \<Rightarrow> Some x)"
  by (induction xs) simp_all

lemma takeWhile_append_subset:
  "set (takeWhile P xs) \<subseteq> set (takeWhile P (xs @ ys))"
  by (induction xs) auto

lemma walk_loop_first_text:
  assumes "\<forall>p \<in> set (takeWhile (\<lambda>p. \<not> is_text_part p) (preorder ps)). part_ok p"
  shows "case find is_text_part (preorder ps) of
           None \<Rightarrow> walk_loop ps = Inr []
         | Some q \<Rightarrow>
             (case part_text q of
                Inl e \<Rightarrow> walk_loop ps = Inl e
              | Inr result \<Rightarrow> result \<noteq> [] \<longrightarrow> walk_loop ps = Inr result)"
  using assms
proof (induction ps rule: preorder.induct)
  case 1
  show ?case by simp
next
  case (2 part ps)
  let ?P = "\<lambda>p. \<not> is_text_part p"
  let ?X = "preorder (children part)" and ?Y = "preorder ps"
  show ?case
  proof (cases "is_text_part part")
    case True
    then show ?thesis
      by (simp add: walk_loop_text_part split: sum.splits)
  next
    case False
    with "2.prems" have ok: "part_ok part"
      and rest: "\<forall>p \<in> set (takeWhile ?P (?X @ ?Y)). part_ok p"
      by simp_all
    note step = walk_loop_other_part[OF ok False]
    have "\<forall>p \<in> set (takeWhile ?P ?X). part_ok p"
      using rest takeWhile_append_subset[of ?P ?X ?Y] by blast
    note ihX = "2.IH"(1)[OF this]
    show ?thesis
    proof (cases "find is_text_part ?X")
      case (Some q)
      then have "find is_text_part (preorder (part # ps)) = Some q"
        using False by (simp add: find_append_case)
      moreover from ihX Some have
        "case part_text q of
           Inl e \<Rightarrow> walk_loop (children part) = Inl e
         | Inr result \<Rightarrow> result \<noteq> [] \<longrightarrow> walk_loop (children part) = Inr result"
        by simp
      ultimately show ?thesis
        by (auto simp: step split: sum.splits)
    next
      case None
      then have all: "\<forall>p \<in> set ?X. ?P p"
        by (simp add: find_None_iff)
      then have "takeWhile ?P (?X @ ?Y) = ?X @ takeWhile ?P ?Y"
        by (simp add: takeWhile_append2)
      with rest have "\<forall>p \<in> set (takeWhile ?P ?Y). part_ok p"
        by simp
      note ihY = "2.IH"(2)[OF this]
      from ihX None have "walk_loop (children part) = Inr []"
        by simp
      then have w: "walk_loop (part # ps) = walk_loop ps"
        by (simp add: step)
      have f: "find is_text_part (preorder (part # ps)) = find is_text_part ?Y"
        using False None by (simp add: find_append_case)
      show ?thesis
        unfolding f w by (rule ihY)
    qed
  qed
qed


lemma preorder_append: "preorder (xs @ ys) = preorder xs @ preorder ys"
  by (induction xs) simp_all

lemma walk_loop_sibling:
  assumes "\<forall>p \<in> set (preorder pre). part_ok p \<and> \<not> is_text_part p" and "is_text_part q"
  shows "walk_loop (pre @ q # post) = part_text q"
  using walk_loop_pass[OF assms(1), of "q # post"] walk_loop_text_part[OF assms(2), of post]
  by simp

lemma extract_multipart:
  assumes "dict_get message (ascii ''payload'') (JObj []) = Inr payload"
    and "extract_headers payload = Inr (subject, sender)"
    and "body_data payload = Inr data" and "\<not> truthy data"
    and "dict_get payload (ascii ''parts'') (JArr []) = Inr parts"
  shows "extract_email_fields message =
      (case walk_parts parts of
         Inl e \<Rightarrow> Inl e
       | Inr body \<Rightarrow> Inr (sender, subject, body))"
  using assms by (simp add: extract_email_fields_def)

lemma walk_order_preorder: "subseq (walk_order ps) (preorder ps)"
proof (induction ps rule: walk_order.induct)
  case 1
  show ?case by simp
next
  case (2 part rest)
  show ?case
  proof (cases "is_text_part part")
    case True
    then show ?thesis by simp
  next
    case False
    with 2 show ?thesis
      by (simp add: list_emb_append_mono)
  qed
qed

lemma walk_loop_exact:
  assumes "\<forall>p \<in> set (takeWhile (\<lambda>q. \<not> gives_result q) (walk_order ps)).
             is_text_part p \<or> part_ok p"
  shows "walk_loop ps =
     (case find gives_result (walk_order ps) of
        None \<Rightarrow> Inr []
      | Some q \<Rightarrow> part_text q)"
  using assms
proof (induction ps rule: walk_order.induct)
  case 1
  show ?case by simp
next
  case (2 part rest)
  let ?P = "\<lambda>q. \<not> gives_result q"
  let ?X = "walk_order (children part)" and ?Y = "walk_order rest"
  show ?case
  proof (cases "is_text_part part")
    case True
    then show ?thesis
      by (simp add: walk_loop_text_part gives_result_def)
  next
    case False
    then have ng: "\<not> gives_result part"
      by (simp add: gives_result_def)
    have order: "walk_order (part # rest) = part # ?X @ ?Y"
      using False by simp
    from "2.prems" have ok: "part_ok part"
      and tail: "\<forall>p \<in> set (takeWhile ?P (?X @ ?Y)). is_text_part p \<or> part_ok p"
      unfolding order using False ng by simp_all
    note step = walk_loop_other_part[OF ok False]
    have "\<forall>p \<in> set (takeWhile ?P ?X). is_text_part p \<or> part_ok p"
      using tail takeWhile_append_subset[of ?P ?X ?Y] by blast
    note ihX = "2.IH"(1)[OF False this]
    show ?thesis
    proof (cases "find gives_result ?X")
      case (Some q)
      then have "gives_result q"
        by (auto simp: find_Some_iff)
      then have q: "part_text q \<noteq> Inr []"
        by (simp add: gives_result_def)
      have f: "find gives_result (walk_order (part # rest)) = Some q"
        unfolding order using ng Some by (simp add: find_append_case)
      from ihX Some have "walk_loop (children part) = part_text q"
        by simp
      with q have "walk_loop (part # rest) = part_text q"
        unfolding step by (cases "part_text q") simp_all
      then show ?thesis
        unfolding f by simp
    next
      case None
      then have "\<forall>p \<in> set ?X. ?P p"
        by (simp add: find_None_iff)
      then have "takeWhile ?P (?X @ ?Y) = ?X @ takeWhile ?P ?Y"
        by (simp add: takeWhile_append2)
      with tail have "\<forall>p \<in> set (takeWhile ?P ?Y). is_text_part p \<or> part_ok p"
        by simp
      note ihY = "2.IH"(2)[OF False this]
      from ihX None have "walk_loop (children part) = Inr []"
        by simp
      then have w: "walk_loop (part # rest) = walk_loop rest"
        by (simp add: step)
      have f: "find gives_result (walk_order (part # rest)) = find gives_result ?Y"
        unfolding order using ng None by (simp add: find_append_case)
      show ?thesis
        unfolding f w by (rule ihY)
    qed
  qed
qed


text \<open>
  C1, as the code has it: when the top-level payload has no inline body data, the body that
  \<open>extract_email_fields\<close> returns is the result of the walk over the parts. The walk
  examines the parts in pre-order, depth first, leaving out at every level the siblings
  after a text part. Its result is what decoding gives for the first text part, in that
  order, whose decoding is not the empty string, and the empty string when there is none.
  Only the parts examined before that one have to be well-formed, and \<open>text/plain\<close> and
  \<open>text/html\<close> are not told apart.
\<close>

theorem walk_parts_preorder:
  assumes "dict_get message (ascii ''payload'') (JObj []) = Inr payload"
    and "extract_headers payload = Inr (subject, sender)"
    and "body_data payload = Inr data" and "\<not> truthy data"
    and "dict_get payload (ascii ''parts'') (JArr []) = Inr (JArr ps)"
    and "\<forall>p \<in> set (takeWhile (\<lambda>q. \<not> gives_result q) (walk_order ps)).
           is_text_part p \<or> part_ok p"
  shows "extract_email_fields message =
      (case walk_loop ps of
         Inl e \<Rightarrow> Inl e
       | Inr body \<Rightarrow> Inr (sender, subject, body))
    \<and> walk_loop ps =
      (case find gives_result (walk_order ps) of
         None \<Rightarrow> Inr []
       | Some q \<Rightarrow> part_text q)
    \<and> subseq (walk_order ps) (preorder ps)"
proof (intro conjI)
  show "extract_email_fields message =
      (case walk_loop ps of
         Inl e \<Rightarrow> Inl e
       | Inr body \<Rightarrow> Inr (sender, subject, body))"
    using extract_multipart[OF assms(1-5)] by simp
  show "walk_loop ps =
      (case find gives_result (walk_order ps) of
         None \<Rightarrow> Inr []
       | Some q \<Rightarrow> part_text q)"
    using assms(6) by (rule walk_loop_exact)
  show "subseq (walk_order ps) (preorder ps)"
    by (rule walk_order_preorder)
qed

theorem walk_parts_preorder_witness:
  "extract_email_fields
     (JObj [(ascii ''payload'', JObj [(ascii ''parts'', JArr
        [JObj [(ascii ''parts'', JArr
           [JObj [(ascii ''parts'', JArr
              [JObj [(ascii ''mimeType'', JStr (ascii ''text/plain'')),
                     (ascii ''body'', JObj [(ascii ''data'', JStr (ascii ''_w''))])]])],
            JObj [(ascii ''mimeType'', JStr (ascii ''text/html'')),
                  (ascii ''body'', JObj [(ascii ''data'', JStr (ascii ''eA''))])]])],
         JObj [(ascii ''mimeType'', JStr (ascii ''text/plain'')),
               (ascii ''body'', JObj [(ascii ''data'', JStr (ascii ''eQ''))])]])])])
   = Inr (JStr [], JStr [], ascii ''x'')
   \<and> find gives_result (walk_order
        [JObj [(ascii ''parts'', JArr
           [JObj [(ascii ''parts'', JArr
              [JObj [(ascii ''mimeType'', JStr (ascii ''text/plain'')),
                     (ascii ''body'', JObj [(ascii ''data'', JStr (ascii ''_w''))])]])],
            JObj [(ascii ''mimeType'', JStr (ascii ''text/html'')),
                  (ascii ''body'', JObj [(ascii ''data'', JStr (ascii ''eA''))])]])],
         JObj [(ascii ''mimeType'', JStr (ascii ''text/plain'')),
               (ascii ''body'', JObj [(ascii ''data'', JStr (ascii ''eQ''))])]])
     = Some (JObj [(ascii ''mimeType'', JStr (ascii ''text/html'')),
                   (ascii ''body'', JObj [(ascii ''data'', JStr (ascii ''eA''))])])"
proof -
  let ?emp = "JObj [(ascii ''mimeType'', JStr (ascii ''text/plain'')),
                    (ascii ''body'', JObj [(ascii ''data'', JStr (ascii ''_w''))])]"
  let ?x = "JObj [(ascii ''mimeType'', JStr (ascii ''text/html'')),
                  (ascii ''body'', JObj [(ascii ''data'', JStr (ascii ''eA''))])]"
  let ?yy = "JObj [(ascii ''mimeType'', JStr (ascii ''text/plain'')),
                   (ascii ''body'', JObj [(ascii ''data'', JStr (ascii ''eQ''))])]"
  let ?ps = "[JObj [(ascii ''parts'', JArr [JObj [(ascii ''parts'', JArr [?emp])], ?x])], ?yy]"
  let ?payload = "JObj [(ascii ''parts'', JArr ?ps)]"
  let ?message = "JObj [(ascii ''payload'', ?payload)]"
  have 1: "dict_get ?message (ascii ''payload'') (JObj []) = Inr ?payload"
    by simp
  have 2: "extract_headers ?payload = Inr (JStr [], JStr [])"
    by code_simp
  have 3: "body_data ?payload = Inr JNull"
    by code_simp
  have 4: "\<not> truthy JNull"
    by simp
  have 5: "dict_get ?payload (ascii ''parts'') (JArr []) = Inr (JArr ?ps)"
    by simp
  have 6: "\<forall>p \<in> set (takeWhile (\<lambda>q. \<not> gives_result q) (walk_order ?ps)).
      is_text_part p \<or> part_ok p"
    by code_simp
  have f: "find gives_result (walk_order ?ps) = Some ?x"
    by code_simp
  have t: "part_text ?x = Inr (ascii ''x'')"
    by code_simp
  from walk_parts_preorder[OF 1 2 3 4 5 6] show ?thesis
    unfolding f using t by simp
qed

text \<open>
  C1, as the claim states it, fails. In the message below the first part in pre-order with a
  text type and data is the nested one; its data \<open>_w\<close> decodes to the empty string, which
  ends the nested walk only, and the body returned is \<open>y\<close>, from the next sibling of the
  parent.
\<close>

theorem walk_parts_preorder_counterexample:
  "find is_text_part (preorder
      [JObj [(ascii ''parts'', JArr
         [JObj [(ascii ''mimeType'', JStr (ascii ''text/plain'')),
                (ascii ''body'', JObj [(ascii ''data'', JStr (ascii ''_w''))])]])],
       JObj [(ascii ''mimeType'', JStr (ascii ''text/plain'')),
             (ascii ''body'', JObj [(ascii ''data'', JStr (ascii ''eQ''))])]])
     = Some (JObj [(ascii ''mimeType'', JStr (ascii ''text/plain'')),
                   (ascii ''body'', JObj [(ascii ''data'', JStr (ascii ''_w''))])])
   \<and> part_text (JObj [(ascii ''mimeType'', JStr (ascii ''text/plain'')),
                      (ascii ''body'', JObj [(ascii ''data'', JStr (ascii ''_w''))])])
     = Inr []
   \<and> extract_email_fields
     (JObj [(ascii ''payload'', JObj [(ascii ''parts'', JArr
        [JObj [(ascii ''parts'', JArr
           [JObj [(ascii ''mimeType'', JStr (ascii ''text/plain'')),
                  (ascii ''body'', JObj [(ascii ''data'', JStr (ascii ''_w''))])]])],
         JObj [(ascii ''mimeType'', JStr (ascii ''text/plain'')),
               (ascii ''body'', JObj [(ascii ''data'', JStr (ascii ''eQ''))])]])])])
     = Inr (JStr [], JStr [], ascii ''y'')"
  by code_simp

section \<open>The empty decoded result\<close>

text \<open>
  C10: when the first text part in traversal order is a member of the list and decodes to
  the empty string, the walk over the list returns the empty string, whatever siblings
  follow it. When instead the walk into the nested parts of a part that is not a text part
  returns the empty string, the scan goes on with the next sibling.
\<close>

theorem walk_loop_empty_result:
  "(\<forall>pre q post.
      (\<forall>p \<in> set (preorder pre). part_ok p \<and> \<not> is_text_part p)
        \<and> is_text_part q \<and> part_text q = Inr []
      \<longrightarrow> walk_loop (pre @ q # post) = Inr [])
   \<and> (\<forall>part rest data sub.
      body_data part = Inr data \<and> \<not> is_text_part part
        \<and> dict_get part (ascii ''parts'') JNull = Inr sub \<and> truthy sub
        \<and> walk_parts sub = Inr []
      \<longrightarrow> walk_loop (part # rest) = walk_loop rest)"
proof (intro conjI allI impI)
  fix pre q post
  assume a: "(\<forall>p \<in> set (preorder pre). part_ok p \<and> \<not> is_text_part p)
    \<and> is_text_part q \<and> part_text q = Inr []"
  then have "walk_loop (pre @ q # post) = part_text q"
    by (intro walk_loop_sibling) simp_all
  with a show "walk_loop (pre @ q # post) = Inr []"
    by simp
next
  fix part rest data sub
  assume a: "body_data part = Inr data \<and> \<not> is_text_part part
    \<and> dict_get part (ascii ''parts'') JNull = Inr sub \<and> truthy sub
    \<and> walk_parts sub = Inr []"
  then have data: "body_data part = Inr data" and no: "\<not> is_text_part part"
    and sub: "dict_get part (ascii ''parts'') JNull = Inr sub" and t: "truthy sub"
    and w: "walk_parts sub = Inr []"
    by simp_all
  from w obtain items where items: "py_iter sub = Inr items" and loop: "walk_loop items = Inr []"
    by (cases "py_iter sub") simp_all
  have ok: "part_ok part"
    by (simp add: part_ok_def data sub items)
  have "children part = items"
    by (simp add: children_def sub t items)
  with loop show "walk_loop (part # rest) = walk_loop rest"
    by (simp add: walk_loop_other_part[OF ok no])
qed

theorem walk_loop_empty_result_witness:
  "walk_loop
     [JObj [(ascii ''mimeType'', JStr (ascii ''text/plain'')),
            (ascii ''body'', JObj [(ascii ''data'', JStr (ascii ''_w''))])],
      JObj [(ascii ''mimeType'', JStr (ascii ''text/html'')),
            (ascii ''body'', JObj [(ascii ''data'', JStr (ascii ''eQ''))])]]
   = Inr []
   \<and> walk_loop
     [JObj [(ascii ''parts'', JArr
        [JObj [(ascii ''mimeType'', JStr (ascii ''text/plain'')),
               (ascii ''body'', JObj [(ascii ''data'', JStr (ascii ''_w''))])],
         JObj [(ascii ''mimeType'', JStr (ascii ''text/plain'')),
               (ascii ''body'', JObj [(ascii ''data'', JStr (ascii ''eA''))])]])],
      JObj [(ascii ''mimeType'', JStr (ascii ''text/html'')),
            (ascii ''body'', JObj [(ascii ''data'', JStr (ascii ''eQ''))])]]
   = Inr (ascii ''y'')"
proof -
  let ?empty = "JObj [(ascii ''mimeType'', JStr (ascii ''text/plain'')),
            (ascii ''body'', JObj [(ascii ''data'', JStr (ascii ''_w''))])]"
  let ?x = "JObj [(ascii ''mimeType'', JStr (ascii ''text/plain'')),
               (ascii ''body'', JObj [(ascii ''data'', JStr (ascii ''eA''))])]"
  let ?y = "JObj [(ascii ''mimeType'', JStr (ascii ''text/html'')),
            (ascii ''body'', JObj [(ascii ''data'', JStr (ascii ''eQ''))])]"
  let ?sub = "JArr [?empty, ?x]"
  let ?nest = "JObj [(ascii ''parts'', ?sub)]"
  have q: "is_text_part ?empty" "part_text ?empty = Inr []"
    by code_simp+
  have n: "body_data ?nest = Inr JNull" "\<not> is_text_part ?nest"
    "dict_get ?nest (ascii ''parts'') JNull = Inr ?sub" "truthy ?sub"
    "walk_parts ?sub = Inr []"
    by code_simp+
  have y: "walk_loop [?y] = Inr (ascii ''y'')"
    by code_simp
  note both = walk_loop_empty_result
  from both have "(\<forall>p \<in> set (preorder []). part_ok p \<and> \<not> is_text_part p)
      \<and> is_text_part ?empty \<and> part_text ?empty = Inr []
      \<longrightarrow> walk_loop ([] @ ?empty # [?y]) = Inr []"
    by blast
  with q have "walk_loop ([] @ ?empty # [?y]) = Inr []"
    by simp
  moreover from both n have "walk_loop (?nest # [?y]) = walk_loop [?y]"
    by blast
  ultimately show ?thesis
    using y by simp
qed

section \<open>Termination and the depth of the recursion\<close>

lemma walk_loop_fuel_step:
  assumes "dict_get part (ascii ''mimeType'') (JStr []) = Inr mime"
    and "body_data part = Inr data" and "\<not> (is_text_mime mime \<and> truthy data)"
    and "dict_get part (ascii ''parts'') JNull = Inr sub" and "truthy sub"
  shows "walk_loop_fuel n (part # rest) =
      (case walk_parts_fuel n sub of
         None \<Rightarrow> None
       | Some (Inl e) \<Rightarrow> Some (Inl e)
       | Some (Inr result) \<Rightarrow>
           if result \<noteq> [] then Some (Inr result) else walk_loop_fuel n rest)"
    and "walk_loop (part # rest) =
      (case walk_parts sub of
         Inl e \<Rightarrow> Inl e
       | Inr result \<Rightarrow> if result \<noteq> [] then Inr result else walk_loop rest)"
proof -
  have sub': "subscript part (ascii ''parts'') = Inr sub"
    using assms(4,5) by (rule dict_get_truthy_subscript)
  show "walk_loop_fuel n (part # rest) =
      (case walk_parts_fuel n sub of
         None \<Rightarrow> None
       | Some (Inl e) \<Rightarrow> Some (Inl e)
       | Some (Inr result) \<Rightarrow>
           if result \<noteq> [] then Some (Inr result) else walk_loop_fuel n rest)"
    using assms sub' by (auto simp del: dict_get.simps subscript.simps walk_parts_fuel.simps)
  show "walk_loop (part # rest) =
      (case walk_parts sub of
         Inl e \<Rightarrow> Inl e
       | Inr result \<Rightarrow> if result \<noteq> [] then Inr result else walk_loop rest)"
    using assms sub'
    by (auto simp: walk_loop.simps(2) simp del: dict_get.simps subscript.simps walk_parts.simps)
qed

lemma walk_fuel_enough:
  "height parts \<le> n \<Longrightarrow> walk_parts_fuel (Suc n) parts = Some (walk_parts parts)"
  "max_list (map height items) \<le> n \<Longrightarrow> walk_loop_fuel n items = Some (walk_loop items)"
proof (induction parts and items arbitrary: n and n rule: walk_parts_walk_loop.induct)
  case (1 parts)
  show ?case
  proof (cases "py_iter parts")
    case (Inl e)
    then show ?thesis by simp
  next
    case (Inr items)
    then have "max_list (map height items) \<le> height parts"
      by (rule height_py_iter)
    with "1.prems" have "max_list (map height items) \<le> n" by simp
    from "1.IH"[OF Inr this] Inr show ?thesis by simp
  qed
next
  case 2
  show ?case by simp
next
  case (3 part rest)
  from "3.prems" have part: "height part \<le> n" and rest: "max_list (map height rest) \<le> n"
    by simp_all
  show ?case
  proof (cases "dict_get part (ascii ''mimeType'') (JStr [])")
    case (Inl e)
    then show ?thesis by (simp add: walk_loop.simps(2))
  next
    case mime: (Inr mime)
    show ?thesis
    proof (cases "body_data part")
      case (Inl e)
      with mime show ?thesis by (simp add: walk_loop.simps(2))
    next
      case data: (Inr data)
      show ?thesis
      proof (cases "is_text_mime mime \<and> truthy data")
        case True
        with mime data show ?thesis by (simp add: walk_loop.simps(2))
      next
        case no: False
        show ?thesis
        proof (cases "dict_get part (ascii ''parts'') JNull")
          case (Inl e)
          with mime data no show ?thesis by (auto simp: walk_loop.simps(2))
        next
          case sub: (Inr sub)
          show ?thesis
          proof (cases "truthy sub")
            case False
            from "3.IH"(3)[OF mime data no sub False rest] mime data no sub False
            show ?thesis by (auto simp: walk_loop.simps(2))
          next
            case t: True
            note step = walk_loop_fuel_step[OF mime data no sub t]
            have sub': "subscript part (ascii ''parts'') = Inr sub"
              using sub t by (rule dict_get_truthy_subscript)
            then have "height sub < height part"
              by (rule height_subscript)
            with part obtain m where n: "n = Suc m" and m: "height sub \<le> m"
              by (cases n) auto
            from "3.IH"(1)[OF mime data no sub t sub' m]
            have nested: "walk_parts_fuel n sub = Some (walk_parts sub)"
              unfolding n .
            show ?thesis
            proof (cases "walk_parts sub")
              case (Inl e)
              then show ?thesis
                unfolding step nested by simp
            next
              case result: (Inr result)
              show ?thesis
              proof (cases "result = []")
                case True
                from "3.IH"(2)[OF mime data no sub t sub' result _ rest] True
                have "walk_loop_fuel n rest = Some (walk_loop rest)" by simp
                with result True show ?thesis
                  unfolding step nested by simp
              next
                case False
                with result show ?thesis
                  unfolding step nested by simp
              qed
            qed
          qed
        qed
      qed
    qed
  qed
qed


lemma walk_parts_fuel_enough:
  assumes "height parts < n"
  shows "walk_parts_fuel n parts = Some (walk_parts parts)"
proof -
  from assms obtain m where n: "n = Suc m" and "height parts \<le> m"
    by (cases n) auto
  then show ?thesis
    unfolding n by (intro walk_fuel_enough(1))
qed

lemma height_dict_get:
  assumes "dict_get x k d = Inr v"
  shows "height v < height x \<or> v = d"
proof -
  from assms obtain kvs where x: "x = JObj kvs"
    by (cases x) simp_all
  show ?thesis
  proof (cases "map_of kvs k")
    case None
    with assms show ?thesis by (simp add: x)
  next
    case (Some w)
    with assms have "w = v" by (simp add: x)
    with Some show ?thesis
      unfolding x using height_map_of[of kvs k v] by simp
  qed
qed

lemma extract_fuel_enough:
  assumes "height message < n"
  shows "extract_email_fields_fuel n message = Some (extract_email_fields message)"
proof (cases "dict_get message (ascii ''payload'') (JObj [])")
  case (Inl e)
  then show ?thesis
    by (simp add: extract_email_fields_fuel_def extract_email_fields_def)
next
  case payload: (Inr payload)
  then obtain kvs where "message = JObj kvs"
    by (cases message) simp_all
  then have "1 \<le> height message" by simp
  with assms have n: "2 \<le> n" by simp
  from height_dict_get[OF payload] assms n have hp: "height payload < n"
    by auto
  have walk: "walk_parts_fuel n parts = Some (walk_parts parts)"
    if "dict_get payload (ascii ''parts'') (JArr []) = Inr parts" for parts
  proof -
    from height_dict_get[OF that] hp n have "height parts < n"
      by auto
    then show ?thesis by (rule walk_parts_fuel_enough)
  qed
  show ?thesis
  proof (cases "dict_get payload (ascii ''parts'') (JArr [])")
    case (Inl e)
    with payload show ?thesis
      by (simp add: extract_email_fields_fuel_def extract_email_fields_def
          split: sum.splits prod.splits)
  next
    case (Inr parts)
    with payload walk[OF Inr] show ?thesis
      by (simp add: extract_email_fields_fuel_def extract_email_fields_def
          split: sum.splits prod.splits)
  qed
qed

text \<open>
  C9: the walk over the parts terminates on every message, with a result or an exception:
  a call stack with room for more nested calls of \<open>walk_parts\<close> than the nesting depth of
  the parts is never exhausted, and the bounded walk then returns what \<open>walk_parts\<close>
  returns. The same holds for \<open>extract_email_fields\<close> and the nesting depth of the message.
\<close>

theorem walk_parts_terminates:
  "(height parts < n \<longrightarrow> walk_parts_fuel n parts = Some (walk_parts parts))
   \<and> (height message < n \<longrightarrow>
        extract_email_fields_fuel n message = Some (extract_email_fields message))"
proof (intro conjI impI)
  assume "height parts < n"
  then show "walk_parts_fuel n parts = Some (walk_parts parts)"
    by (rule walk_parts_fuel_enough)
next
  assume "height message < n"
  then show "extract_email_fields_fuel n message = Some (extract_email_fields message)"
    by (rule extract_fuel_enough)
qed

theorem walk_parts_terminates_witness:
  "height (JArr
      [JObj [(ascii ''parts'', JArr
         [JObj [(ascii ''mimeType'', JStr (ascii ''text/html'')),
                (ascii ''body'', JObj [(ascii ''data'', JStr (ascii ''eA''))])]])]]) = 5
   \<and> walk_parts_fuel 6 (JArr
      [JObj [(ascii ''parts'', JArr
         [JObj [(ascii ''mimeType'', JStr (ascii ''text/html'')),
                (ascii ''body'', JObj [(ascii ''data'', JStr (ascii ''eA''))])]])]])
     = Some (Inr (ascii ''x''))
   \<and> walk_parts (JArr
      [JObj [(ascii ''parts'', JArr
         [JObj [(ascii ''mimeType'', JStr (ascii ''text/html'')),
                (ascii ''body'', JObj [(ascii ''data'', JStr (ascii ''eA''))])]])]])
     = Inr (ascii ''x'')
   \<and> walk_parts_fuel 1 (JArr
      [JObj [(ascii ''parts'', JArr
         [JObj [(ascii ''mimeType'', JStr (ascii ''text/html'')),
                (ascii ''body'', JObj [(ascii ''data'', JStr (ascii ''eA''))])]])]])
     = None"
proof -
  let ?parts = "JArr
      [JObj [(ascii ''parts'', JArr
         [JObj [(ascii ''mimeType'', JStr (ascii ''text/html'')),
                (ascii ''body'', JObj [(ascii ''data'', JStr (ascii ''eA''))])]])]]"
  have h: "height ?parts = 5"
    by code_simp
  have w: "walk_parts ?parts = Inr (ascii ''x'')"
    by code_simp
  have z: "walk_parts_fuel 1 ?parts = None"
    by code_simp
  from walk_parts_terminates[of ?parts 6] h have "walk_parts_fuel 6 ?parts = Some (walk_parts ?parts)"
    by simp
  with h w z show ?thesis
    by simp
qed

section \<open>Missing collections\<close>

lemma ascii_parts_keys:
  "ascii ''mimeType'' \<noteq> ascii ''parts''" "ascii ''body'' \<noteq> ascii ''parts''"
  "ascii ''headers'' \<noteq> ascii ''parts''" "ascii ''body'' \<noteq> ascii ''headers''"
  "ascii ''parts'' \<noteq> ascii ''headers''"
  by (simp_all add: ascii_def)

lemma fill_parts_other_key:
  assumes "k \<noteq> ascii ''parts''"
  shows "dict_get (fill_parts x) k d = dict_get x k d"
  using assms by (cases x) (auto split: option.splits json.splits)

lemma fill_parts_body_data: "body_data (fill_parts x) = body_data x"
  by (simp add: body_data_def fill_parts_other_key ascii_parts_keys)

lemma fill_parts_not_dict:
  assumes "dict_get x k d = Inl e"
  shows "fill_parts x = x"
  using assms by (cases x) simp_all

lemma fill_parts_parts:
  assumes "dict_get x (ascii ''parts'') JNull = Inr sub"
  shows "dict_get (fill_parts x) (ascii ''parts'') JNull =
     Inr (case sub of JNull \<Rightarrow> (case subscript x (ascii ''parts'') of Inl _ \<Rightarrow> JArr [] | Inr _ \<Rightarrow> JNull)
          | JArr cs \<Rightarrow> JArr (map fill_parts cs)
          | _ \<Rightarrow> sub)"
  using assms by (cases x) (auto split: option.splits json.splits)


lemma fill_parts_sub:
  assumes "dict_get x (ascii ''parts'') JNull = Inr sub"
  shows "\<exists>sub'. dict_get (fill_parts x) (ascii ''parts'') JNull = Inr sub'
     \<and> truthy sub' = truthy sub
     \<and> (truthy sub \<longrightarrow> sub' = (case sub of JArr cs \<Rightarrow> JArr (map fill_parts cs) | _ \<Rightarrow> sub))"
  unfolding fill_parts_parts[OF assms]
  by (cases sub) (auto split: sum.splits)

lemma walk_fill:
  "\<forall>cs. parts = JArr cs \<longrightarrow> walk_parts (JArr (map fill_parts cs)) = walk_parts parts"
  "walk_loop (map fill_parts items) = walk_loop items"
proof (induction parts and items rule: walk_parts_walk_loop.induct)
  case (1 parts)
  show ?case
  proof (intro allI impI)
    fix cs
    assume parts: "parts = JArr cs"
    then have "py_iter parts = Inr cs" by simp
    from "1.IH"[OF this] show "walk_parts (JArr (map fill_parts cs)) = walk_parts parts"
      by (simp add: parts)
  qed
next
  case 2
  show ?case by simp
next
  case (3 part rest)
  let ?part = "fill_parts part"
  show ?case
  proof (cases "dict_get part (ascii ''mimeType'') (JStr [])")
    case (Inl e)
    then have "?part = part" by (rule fill_parts_not_dict)
    with Inl show ?thesis by (simp add: walk_loop.simps(2))
  next
    case mime: (Inr mime)
    then have mime': "dict_get ?part (ascii ''mimeType'') (JStr []) = Inr mime"
      by (simp add: fill_parts_other_key ascii_parts_keys)
    show ?thesis
    proof (cases "body_data part")
      case (Inl e)
      with mime mime' show ?thesis
        by (simp add: walk_loop.simps(2) fill_parts_body_data)
    next
      case data: (Inr data)
      then have data': "body_data ?part = Inr data"
        by (simp add: fill_parts_body_data)
      show ?thesis
      proof (cases "is_text_mime mime \<and> truthy data")
        case True
        with mime mime' data data' show ?thesis
          by (simp add: walk_loop.simps(2))
      next
        case no: False
        from mime obtain kvs where "part = JObj kvs"
          by (cases part) simp_all
        then obtain sub where sub: "dict_get part (ascii ''parts'') JNull = Inr sub"
          by simp
        from fill_parts_sub[OF sub] obtain sub' where
          sub': "dict_get ?part (ascii ''parts'') JNull = Inr sub'"
          and t': "truthy sub' = truthy sub"
          and eq: "truthy sub \<Longrightarrow>
            sub' = (case sub of JArr cs \<Rightarrow> JArr (map fill_parts cs) | _ \<Rightarrow> sub)"
          by blast
        show ?thesis
        proof (cases "truthy sub")
          case False
          from "3.IH"(3)[OF mime data no sub False]
          have "walk_loop (map fill_parts rest) = walk_loop rest" .
          with mime mime' data data' no sub sub' False t' show ?thesis
            by (auto simp: walk_loop.simps(2))
        next
          case t: True
          have s1: "subscript part (ascii ''parts'') = Inr sub"
            using sub t by (rule dict_get_truthy_subscript)
          have s2: "subscript ?part (ascii ''parts'') = Inr sub'"
            using sub' t t' by (intro dict_get_truthy_subscript) simp_all
          have nested: "walk_parts sub' = walk_parts sub"
          proof (cases sub)
            case (JArr cs)
            with eq[OF t] have "sub' = JArr (map fill_parts cs)" by simp
            with "3.IH"(1)[OF mime data no sub t s1] JArr show ?thesis
              by simp
          qed (use eq[OF t] in simp_all)
          have step: "walk_loop (part # rest) =
              (case walk_parts sub of
                 Inl e \<Rightarrow> Inl e
               | Inr result \<Rightarrow> if result \<noteq> [] then Inr result else walk_loop rest)"
            using mime data no sub t s1
            by (auto simp: walk_loop.simps(2)
                simp del: dict_get.simps subscript.simps walk_parts.simps)
          have step': "walk_loop (?part # map fill_parts rest) =
              (case walk_parts sub' of
                 Inl e \<Rightarrow> Inl e
               | Inr result \<Rightarrow>
                   if result \<noteq> [] then Inr result else walk_loop (map fill_parts rest))"
            using mime' data' no sub' t t' s2
            by (auto simp: walk_loop.simps(2)
                simp del: dict_get.simps subscript.simps walk_parts.simps)
          show ?thesis
          proof (cases "walk_parts sub")
            case (Inl e)
            then show ?thesis
              using step step' nested by simp
          next
            case (Inr result)
            show ?thesis
            proof (cases "result = []")
              case True
              from "3.IH"(2)[OF mime data no sub t s1 Inr] True
              have "walk_loop (map fill_parts rest) = walk_loop rest" by simp
              with Inr True show ?thesis
                using step step' nested by simp
            next
              case False
              with Inr show ?thesis
                using step step' nested by simp
            qed
          qed
        qed
      qed
    qed
  qed
qed


lemma fill_payload_same:
  "extract_headers (fill_payload p) = extract_headers p"
  "body_data (fill_payload p) = body_data p"
  "subscript (fill_payload p) (ascii ''body'') = subscript p (ascii ''body'')"
  "(case dict_get (fill_payload p) (ascii ''parts'') (JArr []) of
      Inl e \<Rightarrow> Inl e | Inr parts \<Rightarrow> walk_parts parts)
   = (case dict_get p (ascii ''parts'') (JArr []) of
      Inl e \<Rightarrow> Inl e | Inr parts \<Rightarrow> walk_parts parts)"
proof -
  show "extract_headers (fill_payload p) = extract_headers p"
    by (cases p)
      (auto simp: fill_payload_def get_or_def extract_headers_def split: option.splits json.splits)
  show "body_data (fill_payload p) = body_data p"
    by (cases p)
      (auto simp: fill_payload_def body_data_def ascii_parts_keys split: option.splits json.splits)
  show "subscript (fill_payload p) (ascii ''body'') = subscript p (ascii ''body'')"
    by (cases p)
      (auto simp: fill_payload_def ascii_parts_keys split: option.splits json.splits)
  show "(case dict_get (fill_payload p) (ascii ''parts'') (JArr []) of
      Inl e \<Rightarrow> Inl e | Inr parts \<Rightarrow> walk_parts parts)
   = (case dict_get p (ascii ''parts'') (JArr []) of
      Inl e \<Rightarrow> Inl e | Inr parts \<Rightarrow> walk_parts parts)"
  proof (cases p)
    case (JObj kvs)
    show ?thesis
    proof (cases "map_of kvs (ascii ''parts'')")
      case None
      then show ?thesis
        by (simp add: JObj fill_payload_def ascii_parts_keys del: walk_parts.simps)
    next
      case (Some v)
      show ?thesis
      proof (cases v)
        case (JArr cs)
        with Some walk_fill(1)[of "JArr cs"] show ?thesis
          by (simp add: JObj fill_payload_def ascii_parts_keys del: walk_parts.simps)
      qed (use Some in \<open>simp_all add: JObj fill_payload_def ascii_parts_keys del: walk_parts.simps\<close>)
    qed
  qed (simp_all add: fill_payload_def)
qed

lemma extract_fill_message:
  "extract_email_fields (fill_message message) = extract_email_fields message"
proof (cases message)
  case (JObj mkvs)
  let ?p = "get_or (ascii ''payload'') (JObj []) message"
  have p: "dict_get message (ascii ''payload'') (JObj []) = Inr ?p"
    by (simp add: JObj get_or_def)
  have p': "dict_get (fill_message message) (ascii ''payload'') (JObj []) = Inr (fill_payload ?p)"
    by (simp add: JObj fill_message_def)
  have "extract_email_fields (fill_message message) =
      (case extract_headers (fill_payload ?p) of
         Inl e \<Rightarrow> Inl e
       | Inr (subject, sender) \<Rightarrow>
           (case body_data (fill_payload ?p) of
              Inl e \<Rightarrow> Inl e
            | Inr data \<Rightarrow>
                if truthy data then
                  (case subscript (fill_payload ?p) (ascii ''body'') of
                     Inl e \<Rightarrow> Inl e
                   | Inr b \<Rightarrow>
                       (case subscript b (ascii ''data'') of
                          Inl e \<Rightarrow> Inl e
                        | Inr data' \<Rightarrow>
                            (case call_decode data' of
                               Inl e \<Rightarrow> Inl e
                             | Inr body \<Rightarrow> Inr (sender, subject, body))))
                else
                  (case (case dict_get (fill_payload ?p) (ascii ''parts'') (JArr []) of
                           Inl e \<Rightarrow> Inl e | Inr parts \<Rightarrow> walk_parts parts) of
                     Inl e \<Rightarrow> Inl e
                   | Inr body \<Rightarrow> Inr (sender, subject, body))))"
    unfolding extract_email_fields_def p' by (simp split: sum.splits del: walk_parts.simps)
  also have "\<dots> =
      (case extract_headers ?p of
         Inl e \<Rightarrow> Inl e
       | Inr (subject, sender) \<Rightarrow>
           (case body_data ?p of
              Inl e \<Rightarrow> Inl e
            | Inr data \<Rightarrow>
                if truthy data then
                  (case subscript ?p (ascii ''body'') of
                     Inl e \<Rightarrow> Inl e
                   | Inr b \<Rightarrow>
                       (case subscript b (ascii ''data'') of
                          Inl e \<Rightarrow> Inl e
                        | Inr data' \<Rightarrow>
                            (case call_decode data' of
                               Inl e \<Rightarrow> Inl e
                             | Inr body \<Rightarrow> Inr (sender, subject, body))))
                else
                  (case (case dict_get ?p (ascii ''parts'') (JArr []) of
                           Inl e \<Rightarrow> Inl e | Inr parts \<Rightarrow> walk_parts parts) of
                     Inl e \<Rightarrow> Inl e
                   | Inr body \<Rightarrow> Inr (sender, subject, body))))"
    unfolding fill_payload_same ..
  also have "\<dots> = extract_email_fields message"
    unfolding extract_email_fields_def p by (simp split: sum.splits del: walk_parts.simps)
  finally show ?thesis .
qed (simp_all add: fill_message_def)


lemma walk_loop_missing_parts:
  assumes "body_data (JObj kvs) = Inr data" and "\<not> is_text_part (JObj kvs)"
    and "map_of kvs (ascii ''parts'') = None"
  shows "walk_loop (JObj kvs # rest) = walk_loop rest"
proof -
  have ok: "part_ok (JObj kvs)"
    using assms(1,3) by (simp add: part_ok_def)
  have "children (JObj kvs) = []"
    using assms(3) by (simp add: children_def)
  then show ?thesis
    by (simp add: walk_loop_other_part[OF ok assms(2)])
qed

lemma extract_empty:
  assumes "dict_get message (ascii ''payload'') (JObj []) = Inr (JObj pkvs)"
    and "map_of pkvs (ascii ''headers'') = None \<or> map_of pkvs (ascii ''headers'') = Some (JArr [])"
    and "body_data (JObj pkvs) = Inr data" and "\<not> truthy data"
    and "map_of pkvs (ascii ''parts'') = None \<or> map_of pkvs (ascii ''parts'') = Some (JArr [])"
  shows "extract_email_fields message = Inr (JStr [], JStr [], [])"
proof -
  have h: "extract_headers (JObj pkvs) = Inr (JStr [], JStr [])"
    using assms(2) by (auto simp: extract_headers_def)
  have p: "dict_get (JObj pkvs) (ascii ''parts'') (JArr []) = Inr (JArr [])"
    using assms(5) by auto
  from extract_multipart[OF assms(1) h assms(3,4) p] show ?thesis
    by simp
qed

text \<open>
  C6: a missing payload, a missing list of headers and a missing list of parts, at the top
  and in every part of the tree, are treated as empty: \<open>extract_email_fields\<close> gives the
  same outcome on a message and on the message with these collections written out as empty.
  No error comes from their absence: a message without a payload gives three empty
  strings, and so does a payload with no headers or an empty list of them, no inline body
  data, and no parts or an empty list of them; a part without text data and without parts
  is passed over; and a tree of well-formed parts none of which is a text part gives the
  empty string.
\<close>

theorem extract_missing_collections:
  "extract_email_fields (fill_message message) = extract_email_fields message
   \<and> walk_loop (map fill_parts ps) = walk_loop ps
   \<and> (map_of mkvs (ascii ''payload'') = None \<longrightarrow>
        extract_email_fields (JObj mkvs) = Inr (JStr [], JStr [], []))
   \<and> (map_of mkvs (ascii ''payload'') = Some (JObj pkvs)
        \<and> (map_of pkvs (ascii ''headers'') = None \<or> map_of pkvs (ascii ''headers'') = Some (JArr []))
        \<and> body_data (JObj pkvs) = Inr data \<and> \<not> truthy data
        \<and> (map_of pkvs (ascii ''parts'') = None \<or> map_of pkvs (ascii ''parts'') = Some (JArr []))
        \<longrightarrow> extract_email_fields (JObj mkvs) = Inr (JStr [], JStr [], []))
   \<and> (body_data (JObj kvs) = Inr data' \<and> \<not> is_text_part (JObj kvs)
        \<and> map_of kvs (ascii ''parts'') = None
        \<longrightarrow> walk_loop (JObj kvs # rest) = walk_loop rest)
   \<and> ((\<forall>p \<in> set (preorder ps). part_ok p \<and> \<not> is_text_part p) \<longrightarrow> walk_loop ps = Inr [])"
proof (intro conjI impI)
  show "extract_email_fields (fill_message message) = extract_email_fields message"
    by (rule extract_fill_message)
  show "walk_loop (map fill_parts ps) = walk_loop ps"
    by (rule walk_fill(2))
next
  assume "map_of mkvs (ascii ''payload'') = None"
  then have p: "dict_get (JObj mkvs) (ascii ''payload'') (JObj []) = Inr (JObj [])"
    by simp
  have b: "body_data (JObj []) = Inr JNull"
    by (simp add: body_data_def)
  have t: "\<not> truthy JNull"
    by simp
  have n: "map_of [] (ascii ''headers'') = (None :: json option)
      \<or> map_of [] (ascii ''headers'') = Some (JArr [])"
    "map_of [] (ascii ''parts'') = (None :: json option)
      \<or> map_of [] (ascii ''parts'') = Some (JArr [])"
    by simp_all
  from extract_empty[OF p n(1) b t n(2)]
  show "extract_email_fields (JObj mkvs) = Inr (JStr [], JStr [], [])" .
next
  assume a: "map_of mkvs (ascii ''payload'') = Some (JObj pkvs)
        \<and> (map_of pkvs (ascii ''headers'') = None \<or> map_of pkvs (ascii ''headers'') = Some (JArr []))
        \<and> body_data (JObj pkvs) = Inr data \<and> \<not> truthy data
        \<and> (map_of pkvs (ascii ''parts'') = None \<or> map_of pkvs (ascii ''parts'') = Some (JArr []))"
  then have p: "dict_get (JObj mkvs) (ascii ''payload'') (JObj []) = Inr (JObj pkvs)"
    by simp
  from a have h: "map_of pkvs (ascii ''headers'') = None
      \<or> map_of pkvs (ascii ''headers'') = Some (JArr [])"
    and b: "body_data (JObj pkvs) = Inr data" and t: "\<not> truthy data"
    and q: "map_of pkvs (ascii ''parts'') = None \<or> map_of pkvs (ascii ''parts'') = Some (JArr [])"
    by blast+
  from extract_empty[OF p h b t q]
  show "extract_email_fields (JObj mkvs) = Inr (JStr [], JStr [], [])" .
next
  assume "body_data (JObj kvs) = Inr data' \<and> \<not> is_text_part (JObj kvs)
        \<and> map_of kvs (ascii ''parts'') = None"
  then show "walk_loop (JObj kvs # rest) = walk_loop rest"
    by (intro walk_loop_missing_parts) simp_all
next
  assume "\<forall>p \<in> set (preorder ps). part_ok p \<and> \<not> is_text_part p"
  from walk_loop_pass[OF this, of "[]"] show "walk_loop ps = Inr []"
    by simp
qed

theorem extract_missing_collections_witness:
  "extract_email_fields (JObj []) = Inr (JStr [], JStr [], [])
   \<and> extract_email_fields (JObj [(ascii ''payload'', JObj [])]) = Inr (JStr [], JStr [], [])
   \<and> extract_email_fields
        (JObj [(ascii ''payload'', JObj [(ascii ''headers'', JArr []), (ascii ''parts'', JArr [])])])
      = Inr (JStr [], JStr [], [])
   \<and> fill_message (JObj [(ascii ''payload'', JObj [(ascii ''parts'', JArr
        [JObj [(ascii ''mimeType'', JStr (ascii ''multipart/mixed''))],
         JObj [(ascii ''mimeType'', JStr (ascii ''text/plain'')),
               (ascii ''body'', JObj [(ascii ''data'', JStr (ascii ''SGk''))])]])])])
      = JObj [(ascii ''payload'', JObj [(ascii ''headers'', JArr []), (ascii ''parts'', JArr
        [JObj [(ascii ''parts'', JArr []), (ascii ''mimeType'', JStr (ascii ''multipart/mixed''))],
         JObj [(ascii ''parts'', JArr []), (ascii ''mimeType'', JStr (ascii ''text/plain'')),
               (ascii ''body'', JObj [(ascii ''data'', JStr (ascii ''SGk''))])]]),
           (ascii ''parts'', JArr
        [JObj [(ascii ''mimeType'', JStr (ascii ''multipart/mixed''))],
         JObj [(ascii ''mimeType'', JStr (ascii ''text/plain'')),
               (ascii ''body'', JObj [(ascii ''data'', JStr (ascii ''SGk''))])]])]),
         (ascii ''payload'', JObj [(ascii ''parts'', JArr
        [JObj [(ascii ''mimeType'', JStr (ascii ''multipart/mixed''))],
         JObj [(ascii ''mimeType'', JStr (ascii ''text/plain'')),
               (ascii ''body'', JObj [(ascii ''data'', JStr (ascii ''SGk''))])]])])]
   \<and> extract_email_fields (fill_message (JObj [(ascii ''payload'', JObj [(ascii ''parts'', JArr
        [JObj [(ascii ''mimeType'', JStr (ascii ''multipart/mixed''))],
         JObj [(ascii ''mimeType'', JStr (ascii ''text/plain'')),
               (ascii ''body'', JObj [(ascii ''data'', JStr (ascii ''SGk''))])]])])]))
      = Inr (JStr [], JStr [], ascii ''Hi'')"
proof -
  let ?m = "JObj [(ascii ''payload'', JObj [(ascii ''parts'', JArr
        [JObj [(ascii ''mimeType'', JStr (ascii ''multipart/mixed''))],
         JObj [(ascii ''mimeType'', JStr (ascii ''text/plain'')),
               (ascii ''body'', JObj [(ascii ''data'', JStr (ascii ''SGk''))])]])])]"
  note facts = extract_missing_collections
  have none: "map_of [] (ascii ''payload'') = (None :: json option)"
    by simp
  from facts[of _ _ "[]"] none have 1: "extract_email_fields (JObj []) = Inr (JStr [], JStr [], [])"
    by blast
  have b: "body_data (JObj []) = Inr JNull" "\<not> truthy JNull"
    by (simp_all add: body_data_def)
  from facts[of _ _ "[(ascii ''payload'', JObj [])]" "[]" JNull] b
  have 2: "extract_email_fields (JObj [(ascii ''payload'', JObj [])]) = Inr (JStr [], JStr [], [])"
    by simp
  have 3: "extract_email_fields
        (JObj [(ascii ''payload'', JObj [(ascii ''headers'', JArr []), (ascii ''parts'', JArr [])])])
      = Inr (JStr [], JStr [], [])"
    by code_simp
  have 4: "extract_email_fields ?m = Inr (JStr [], JStr [], ascii ''Hi'')"
    by code_simp
  from facts[of ?m] have 5: "extract_email_fields (fill_message ?m) = extract_email_fields ?m"
    by blast
  have 6: "fill_message ?m
      = JObj [(ascii ''payload'', JObj [(ascii ''headers'', JArr []), (ascii ''parts'', JArr
        [JObj [(ascii ''parts'', JArr []), (ascii ''mimeType'', JStr (ascii ''multipart/mixed''))],
         JObj [(ascii ''parts'', JArr []), (ascii ''mimeType'', JStr (ascii ''text/plain'')),
               (ascii ''body'', JObj [(ascii ''data'', JStr (ascii ''SGk''))])]]),
           (ascii ''parts'', JArr
        [JObj [(ascii ''mimeType'', JStr (ascii ''multipart/mixed''))],
         JObj [(ascii ''mimeType'', JStr (ascii ''text/plain'')),
               (ascii ''body'', JObj [(ascii ''data'', JStr (ascii ''SGk''))])]])]),
         (ascii ''payload'', JObj [(ascii ''parts'', JArr
        [JObj [(ascii ''mimeType'', JStr (ascii ''multipart/mixed''))],
         JObj [(ascii ''mimeType'', JStr (ascii ''text/plain'')),
               (ascii ''body'', JObj [(ascii ''data'', JStr (ascii ''SGk''))])]])])]"
    by code_simp
  from 1 2 3 4 5 6 show ?thesis
    by (simp only: simp_thms)
qed

end
